theory Spec2Isabelle
  imports Main "HOL-Library.Char_ord" "HOL-Library.List_Lexorder" "HOL-Library.AList"
    "HOL-Library.Code_Target_Nat"
begin

section \<open>The mysqlconnect package: data model\<close>

text \<open>
  The embedding follows the Go package \<open>mysqlconnect\<close>. Go strings are byte sequences and so
  are HOL strings. A \<open>*Duration\<close> or \<open>*int\<close> field that may be \<open>nil\<close> is an \<open>option\<close>;
  a \<open>Duration\<close> is its number of nanoseconds. The field \<open>ConnectionPool\<close> of a
  \<open>Connection\<close> is \<open>Pool\<close> here, its type keeping the name.
\<close>

record ConnectionPool =
  ConnMaxLifetime :: "int option"
  MaxIdleConnections :: "int option"
  MaxOpenConnections :: "int option"
  ConnMaxIdleTime :: "int option"

record Connection =
  Name :: string
  IsMaster :: bool
  IsReadOnly :: bool
  Parameters :: string
  Pool :: ConnectionPool

record Config =
  DSN :: string
  Cluster :: string
  HACluster :: string
  Schema :: string
  Connections :: "Connection list"

text \<open>
  The errors \<open>Open\<close> returns, one constructor for each \<open>errors.New\<close> or \<open>fmt.Errorf\<close> of the
  source, in the order of the source. \<open>DriverError\<close> carries the text of an error of
  \<open>sql.Open\<close>. \<open>NilHandle\<close> stands for the handle left \<open>nil\<close> when none of the three
  branches of the loop body is taken. \<open>CloseFailure\<close> carries the text of the error of
  \<open>Close\<close>.
\<close>

datatype error =
    EmptyTopology
  | DSNWithCluster
  | ClusterWithHACluster
  | DSNWithSchema
  | SchemaMissing
  | NoConnections
  | DuplicatedName string
  | ReplicaWrite string
  | DriverError string
  | NilHandle
  | CloseFailure string

subsection \<open>The collaborators: environment, driver registry, handles\<close>

text \<open>
  \<open>os.Getenv\<close> returns the empty string for a variable that is not set.
\<close>

type_synonym environ = "string \<Rightarrow> string option"

definition Getenv :: "environ \<Rightarrow> string \<Rightarrow> string" where
  "Getenv env key = (case env key of None \<Rightarrow> [] | Some v \<Rightarrow> v)"

text \<open>
  A handle \<open>*sql.DB\<close> is known to this package through what it does with it: the driver
  name and connection string it was opened with, and the pool setters called on it since,
  in call order.
\<close>

datatype PoolCall =
    CallSetConnMaxLifetime int
  | CallSetMaxIdleConns int
  | CallSetMaxOpenConns int
  | CallSetConnMaxIdleTime int

record DB =
  driverName :: string
  dataSourceName :: string
  poolCalls :: "PoolCall list"

text \<open>
  The Go standard library as this code calls it. Of the \<open>database/sql\<close> package: the
  registered driver names (\<open>sql.Drivers()\<close>), for a driver name and a connection string
  the text of the error of \<open>sql.Open\<close>, if it fails, and for a handle the text of the
  error of its \<open>Close\<close>, if it fails. Of the \<open>strings\<close> package: \<open>strings.ToUpper\<close>,
  the Unicode upper-casing of a string. Its mapping is the library's and is not restated
  here: it is a parameter, and every property below holds whatever it is.
\<close>

record SQL =
  Drivers :: "string list"
  OpenError :: "string \<Rightarrow> string \<Rightarrow> string option"
  CloseError :: "DB \<Rightarrow> string option"
  ToUpper :: "string \<Rightarrow> string"

definition sqlOpen :: "SQL \<Rightarrow> string \<Rightarrow> string \<Rightarrow> error + DB" where
  "sqlOpen sql name dsn =
     (case OpenError sql name dsn of
        Some e \<Rightarrow> Inl (DriverError e)
      | None \<Rightarrow> Inr \<lparr>driverName = name, dataSourceName = dsn, poolCalls = []\<rparr>)"

definition SetConnMaxLifetime :: "int \<Rightarrow> DB \<Rightarrow> DB" where
  "SetConnMaxLifetime d db = db\<lparr>poolCalls := poolCalls db @ [CallSetConnMaxLifetime d]\<rparr>"

definition SetMaxIdleConns :: "int \<Rightarrow> DB \<Rightarrow> DB" where
  "SetMaxIdleConns n db = db\<lparr>poolCalls := poolCalls db @ [CallSetMaxIdleConns n]\<rparr>"

definition SetMaxOpenConns :: "int \<Rightarrow> DB \<Rightarrow> DB" where
  "SetMaxOpenConns n db = db\<lparr>poolCalls := poolCalls db @ [CallSetMaxOpenConns n]\<rparr>"

definition SetConnMaxIdleTime :: "int \<Rightarrow> DB \<Rightarrow> DB" where
  "SetConnMaxIdleTime d db = db\<lparr>poolCalls := poolCalls db @ [CallSetConnMaxIdleTime d]\<rparr>"

section \<open>Opening connections\<close>

text \<open>
  Every function that reaches \<open>sql.Open\<close> threads the list of the connection strings
  passed to it so far: the connection attempts, in order.
\<close>

definition getDriverName :: "SQL \<Rightarrow> string" where
  "getDriverName sql = (if ''nrmysql'' \<in> set (Drivers sql) then ''nrmysql'' else ''mysql'')"

definition openDSN :: "SQL \<Rightarrow> string \<Rightarrow> string list \<Rightarrow> string list \<times> (error + DB)" where
  "openDSN sql dsn tr = (tr @ [dsn], sqlOpen sql (getDriverName sql) dsn)"

definition openMySQL ::
  "SQL \<Rightarrow> environ \<Rightarrow> string \<Rightarrow> string \<Rightarrow> Connection \<Rightarrow> string list
     \<Rightarrow> string list \<times> (error + DB)" where
  "openMySQL sql env cluster schema config tr =
     (let clusterInUpperCase = ToUpper sql cluster;
          schemaInUpperCase = ToUpper sql schema;
          host =
            (if IsMaster config
             then Getenv env (''DB_MYSQL_'' @ clusterInUpperCase @ ''_'' @ schemaInUpperCase
                                @ ''_'' @ schemaInUpperCase @ ''_ENDPOINT'')
             else Getenv env (''DB_MYSQL_'' @ clusterInUpperCase @ ''_'' @ schemaInUpperCase
                                @ ''_'' @ schemaInUpperCase @ ''_LOCAL_REPLICA_ENDPOINT''));
          username =
            (if IsReadOnly config then schema @ ''_RPROD'' else schema @ ''_WPROD'');
          password =
            (if IsReadOnly config
             then Getenv env (''DB_MYSQL_'' @ clusterInUpperCase @ ''_'' @ schemaInUpperCase
                                @ ''_'' @ schemaInUpperCase @ ''_RPROD'')
             else Getenv env (''DB_MYSQL_'' @ clusterInUpperCase @ ''_'' @ schemaInUpperCase
                                @ ''_'' @ schemaInUpperCase @ ''_WPROD''));
          dsn = username @ '':'' @ password @ ''@tcp('' @ host @ '')/'' @ schema;
          dsn = (if Parameters config \<noteq> [] then dsn @ ''?'' @ Parameters config else dsn)
      in openDSN sql dsn tr)"

definition openMySQLHA ::
  "SQL \<Rightarrow> environ \<Rightarrow> string \<Rightarrow> string \<Rightarrow> Connection \<Rightarrow> string list
     \<Rightarrow> string list \<times> (error + DB)" where
  "openMySQLHA sql env cluster schema config tr =
     (let clusterInUpperCase = ToUpper sql cluster;
          schemaInUpperCase = ToUpper sql schema;
          host =
            (if IsMaster config
             then Getenv env (''DB_HA_MYSQL_'' @ clusterInUpperCase @ ''_'' @ schemaInUpperCase
                                @ ''_'' @ schemaInUpperCase @ ''_WR_ENDPOINT'')
             else Getenv env (''DB_HA_MYSQL_'' @ clusterInUpperCase @ ''_'' @ schemaInUpperCase
                                @ ''_'' @ schemaInUpperCase @ ''_RO_ENDPOINT''));
          username =
            (if IsReadOnly config then schema @ ''_RPROD'' else schema @ ''_WPROD'');
          password =
            (if IsReadOnly config
             then Getenv env (''DB_HA_MYSQL_'' @ clusterInUpperCase @ ''_'' @ schemaInUpperCase
                                @ ''_'' @ schemaInUpperCase @ ''_RPROD'')
             else Getenv env (''DB_HA_MYSQL_'' @ clusterInUpperCase @ ''_'' @ schemaInUpperCase
                                @ ''_'' @ schemaInUpperCase @ ''_WPROD''));
          dsn = username @ '':'' @ password @ ''@tcp('' @ host @ '')/'' @ schema;
          dsn = (if Parameters config \<noteq> [] then dsn @ ''?'' @ Parameters config else dsn)
      in openDSN sql dsn tr)"

text \<open>\<open>validateDuplicateNames\<close>: the loop carries the names seen so far.\<close>

fun validateDuplicateNamesLoop :: "Connection list \<Rightarrow> string list \<Rightarrow> error option" where
  "validateDuplicateNamesLoop [] connectionNames = None"
| "validateDuplicateNamesLoop (connection # rest) connectionNames =
     (if Name connection \<in> set connectionNames then Some (DuplicatedName (Name connection))
      else validateDuplicateNamesLoop rest (Name connection # connectionNames))"

definition validateDuplicateNames :: "Connection list \<Rightarrow> error option" where
  "validateDuplicateNames connections = validateDuplicateNamesLoop connections []"

text \<open>The pool settings of lines 211 to 228 of \<open>Open\<close>, applied to the handle just opened.\<close>

definition applyConnectionPool :: "ConnectionPool \<Rightarrow> DB \<Rightarrow> DB" where
  "applyConnectionPool pool db0 =
     (let db1 = (case ConnMaxLifetime pool of Some d \<Rightarrow> SetConnMaxLifetime d db0 | None \<Rightarrow> db0);
          db2 = (case MaxIdleConnections pool of Some n \<Rightarrow> SetMaxIdleConns n db1 | None \<Rightarrow> db1);
          db3 = (case MaxOpenConnections pool of Some n \<Rightarrow> SetMaxOpenConns n db2 | None \<Rightarrow> db2);
          db4 = (case ConnMaxIdleTime pool of Some d \<Rightarrow> SetConnMaxIdleTime d db3 | None \<Rightarrow> db3)
      in db4)"

text \<open>
  The registry \<open>connections\<close>: the Go map \<open>dbs\<close> as an association list; \<open>dbs[name] = db\<close>
  is \<open>AList.update\<close>, which keeps the keys distinct.
\<close>

record connections =
  dbs :: "(string \<times> DB) list"

text \<open>
  The loop of \<open>Open\<close> over \<open>config.Connections\<close>. It returns the connection attempts made
  and either the error it stopped at or the map built.
\<close>

fun OpenLoop ::
  "SQL \<Rightarrow> environ \<Rightarrow> Config \<Rightarrow> Connection list \<Rightarrow> (string \<times> DB) list \<Rightarrow> string list
     \<Rightarrow> string list \<times> (error + (string \<times> DB) list)" where
  "OpenLoop sql env config [] m tr = (tr, Inr m)"
| "OpenLoop sql env config (connectionConfig # rest) m tr =
     (if DSN config = [] \<and> (\<not> IsMaster connectionConfig \<and> \<not> IsReadOnly connectionConfig)
      then (tr, Inl (ReplicaWrite (Name connectionConfig)))
      else
        (case (if DSN config \<noteq> [] then openDSN sql (DSN config) tr
               else if Cluster config \<noteq> []
                 then openMySQL sql env (Cluster config) (Schema config) connectionConfig tr
               else if HACluster config \<noteq> []
                 then openMySQLHA sql env (HACluster config) (Schema config) connectionConfig tr
               else (tr, Inl NilHandle)) of
           (tr1, Inl err) \<Rightarrow> (tr1, Inl err)
         | (tr1, Inr db) \<Rightarrow>
             OpenLoop sql env config rest
               (AList.update (Name connectionConfig)
                  (applyConnectionPool (Pool connectionConfig) db) m) tr1))"

definition Open :: "SQL \<Rightarrow> environ \<Rightarrow> Config \<Rightarrow> string list \<times> (error + connections)" where
  "Open sql env config =
     (if DSN config = [] \<and> Cluster config = [] \<and> HACluster config = []
        then ([], Inl EmptyTopology)
      else if DSN config \<noteq> [] \<and> (Cluster config \<noteq> [] \<or> HACluster config \<noteq> [])
        then ([], Inl DSNWithCluster)
      else if Cluster config \<noteq> [] \<and> HACluster config \<noteq> []
        then ([], Inl ClusterWithHACluster)
      else if DSN config \<noteq> [] \<and> Schema config \<noteq> []
        then ([], Inl DSNWithSchema)
      else if DSN config = [] \<and> Schema config = []
        then ([], Inl SchemaMissing)
      else if length (Connections config) = 0
        then ([], Inl NoConnections)
      else
        (case validateDuplicateNames (Connections config) of
           Some err \<Rightarrow> ([], Inl err)
         | None \<Rightarrow>
             (case OpenLoop sql env config (Connections config) [] [] of
                (tr, Inl err) \<Rightarrow> (tr, Inl err)
              | (tr, Inr m) \<Rightarrow> (tr, Inr \<lparr>dbs = m\<rparr>))))"

section \<open>Closing the registry\<close>

text \<open>\<open>strings.Join\<close>\<close>

fun Join :: "string list \<Rightarrow> string \<Rightarrow> string" where
  "Join [] sep = []"
| "Join [x] sep = x"
| "Join (x # y # ys) sep = x @ sep @ Join (y # ys) sep"

text \<open>
  The loop of \<open>Close\<close> over the sorted names. It carries the names whose handle it has
  called \<open>Close\<close> on, in call order, and the failures collected. Looking up a name that
  is not in the map gives a \<open>nil\<close> handle, and calling \<open>Close\<close> on it panics: the
  result \<open>None\<close>.
\<close>

fun CloseLoop ::
  "SQL \<Rightarrow> (string \<times> DB) list \<Rightarrow> string list \<Rightarrow> string list \<Rightarrow> string list
     \<Rightarrow> (string list \<times> string list) option" where
  "CloseLoop sql m [] closed errs = Some (closed, errs)"
| "CloseLoop sql m (name # names) closed errs =
     (case map_of m name of
        None \<Rightarrow> None
      | Some db \<Rightarrow>
          (case CloseError sql db of
             Some err \<Rightarrow>
               CloseLoop sql m names (closed @ [name]) (errs @ [name @ '': '' @ err])
           | None \<Rightarrow> CloseLoop sql m names (closed @ [name]) errs))"

text \<open>
  \<open>maps.Keys\<close> returns the keys in no particular order, here the order of the association
  list; \<open>sort.Strings\<close> sorts them in increasing bytewise order. \<open>Close\<close> returns the
  names it closed and its error, if any.
\<close>

definition Close :: "SQL \<Rightarrow> connections \<Rightarrow> (string list \<times> error option) option" where
  "Close sql c =
     (let names = map fst (dbs c);
          names = sort names
      in case CloseLoop sql (dbs c) names [] [] of
           None \<Rightarrow> None
         | Some (closed, errs) \<Rightarrow>
             (if length errs > 0
              then Some (closed,
                     Some (CloseFailure (''failed to close connections: '' @ Join errs '', '')))
              else Some (closed, None)))"

text \<open>
  The failures of closing the handles of the given names, in the order of the names, each
  rendered as \<open>name: underlying-error\<close>, as the specification words it.
\<close>

definition closeFailures :: "SQL \<Rightarrow> (string \<times> DB) list \<Rightarrow> string list \<Rightarrow> string list" where
  "closeFailures sql m names =
     List.map_filter
       (\<lambda>name. case map_of m name of
                 None \<Rightarrow> None
               | Some db \<Rightarrow> map_option (\<lambda>err. name @ '': '' @ err) (CloseError sql db))
       names"

section \<open>The invariants of a configuration, as the specification words them\<close>

text \<open>1. Exactly one of direct DSN, single-cluster name and HA-cluster name is set.\<close>

definition invariant1 :: "Config \<Rightarrow> bool" where
  "invariant1 config =
     (length (filter (\<lambda>s. s \<noteq> []) [DSN config, Cluster config, HACluster config]) = 1)"

definition clusterMode :: "Config \<Rightarrow> bool" where
  "clusterMode config = (Cluster config \<noteq> [] \<or> HACluster config \<noteq> [])"

text \<open>2. The schema is set if and only if the topology mode is a cluster mode.\<close>

definition invariant2 :: "Config \<Rightarrow> bool" where
  "invariant2 config = ((Schema config \<noteq> []) = clusterMode config)"

text \<open>3. The list of connection specs is non-empty.\<close>

definition invariant3 :: "Config \<Rightarrow> bool" where
  "invariant3 config = (Connections config \<noteq> [])"

text \<open>4. All names are unique.\<close>

definition invariant4 :: "Config \<Rightarrow> bool" where
  "invariant4 config = distinct (map Name (Connections config))"

text \<open>5. In cluster modes, every spec is a master or read-only.\<close>

definition invariant5 :: "Config \<Rightarrow> bool" where
  "invariant5 config =
     (if clusterMode config
      then list_all (\<lambda>c. IsMaster c \<or> IsReadOnly c) (Connections config) else True)"

text \<open>The numbers of the invariants a configuration violates, in priority order.\<close>

definition violated :: "Config \<Rightarrow> nat list" where
  "violated config =
     (if invariant1 config then [] else [1]) @ (if invariant2 config then [] else [2])
     @ (if invariant3 config then [] else [3]) @ (if invariant4 config then [] else [4])
     @ (if invariant5 config then [] else [5])"

text \<open>The invariant a configuration error reports; other errors report none.\<close>

fun invariantOf :: "error \<Rightarrow> nat option" where
  "invariantOf EmptyTopology = Some 1"
| "invariantOf DSNWithCluster = Some 1"
| "invariantOf ClusterWithHACluster = Some 1"
| "invariantOf DSNWithSchema = Some 2"
| "invariantOf SchemaMissing = Some 2"
| "invariantOf NoConnections = Some 3"
| "invariantOf (DuplicatedName n) = Some 4"
| "invariantOf (ReplicaWrite n) = Some 5"
| "invariantOf (DriverError e) = None"
| "invariantOf NilHandle = None"
| "invariantOf (CloseFailure e) = None"

section \<open>Example inputs\<close>

definition noPool :: ConnectionPool where
  "noPool = \<lparr>ConnMaxLifetime = None, MaxIdleConnections = None, MaxOpenConnections = None,
     ConnMaxIdleTime = None\<rparr>"

text \<open>
  The upper-casing of the examples: the letters \<open>a\<close> to \<open>z\<close> go to \<open>A\<close> to \<open>Z\<close>, every other
  byte stays. The examples apply it to strings of ASCII bytes only, where
  \<open>strings.ToUpper\<close> does the same.
\<close>

definition upperASCIIByte :: "char \<Rightarrow> char" where
  "upperASCIIByte c =
     (if CHR ''a'' \<le> c \<and> c \<le> CHR ''z'' then char_of (of_char c - (32::nat)) else c)"

definition upperASCII :: "string \<Rightarrow> string" where
  "upperASCII s = map upperASCIIByte s"

text \<open>A driver registry with the plain driver only, where every open and close succeeds.\<close>

definition plainSQL :: SQL where
  "plainSQL = \<lparr>Drivers = [''mysql''], OpenError = (\<lambda>name dsn. None), CloseError = (\<lambda>db. None),
     ToUpper = upperASCII\<rparr>"

text \<open>The same, with every close failing as the test driver does.\<close>

definition failingCloseSQL :: SQL where
  "failingCloseSQL = plainSQL\<lparr>CloseError := (\<lambda>db. Some ''driver: bad connection'')\<rparr>"

definition exampleParameters :: string where
  "exampleParameters = ''timeout=100ms&readTimeout=100ms&writeTimeout=100ms&parseTime=true''"

definition masterConnection :: Connection where
  "masterConnection = \<lparr>Name = ''foo'', IsMaster = True, IsReadOnly = False,
     Parameters = exampleParameters, Pool = noPool\<rparr>"

definition singleClusterConfig :: Config where
  "singleClusterConfig = \<lparr>DSN = [], Cluster = ''desaenv08'', HACluster = [], Schema = ''bar'',
     Connections = [masterConnection]\<rparr>"

definition singleClusterEnv :: environ where
  "singleClusterEnv =
     [''DB_MYSQL_DESAENV08_BAR_BAR_ENDPOINT'' \<mapsto> ''localhost:3306'',
      ''DB_MYSQL_DESAENV08_BAR_BAR_WPROD'' \<mapsto> ''password'']"




text \<open>A spec that is neither a master nor read-only.\<close>

definition plainConnection :: "string \<Rightarrow> Connection" where
  "plainConnection name = \<lparr>Name = name, IsMaster = False, IsReadOnly = False,
     Parameters = [], Pool = noPool\<rparr>"

definition directConfig :: Config where
  "directConfig = \<lparr>DSN = ''root:password@tcp(localhost:3306)/foo'', Cluster = [], HACluster = [],
     Schema = [],
     Connections = [(plainConnection ''foo'')\<lparr>Parameters := exampleParameters\<rparr>,
       plainConnection ''bar'', plainConnection ''baz'']\<rparr>"

text \<open>Two specs of the same name, neither a master nor read-only, in single-cluster mode.\<close>

definition duplicateReplicaConfig :: Config where
  "duplicateReplicaConfig = \<lparr>DSN = [], Cluster = ''desaenv08'', HACluster = [], Schema = ''bar'',
     Connections = [plainConnection ''foo'', plainConnection ''foo'']\<rparr>"

text \<open>A master followed by a spec that is neither a master nor read-only.\<close>

definition masterThenReplicaWriteConfig :: Config where
  "masterThenReplicaWriteConfig = \<lparr>DSN = [], Cluster = ''desaenv08'', HACluster = [],
     Schema = ''bar'', Connections = [masterConnection, plainConnection ''replica'']\<rparr>"

text \<open>Specs with one pool setting and with all four, as in the package's tests.\<close>

definition idleOnlyConnection :: Connection where
  "idleOnlyConnection = \<lparr>Name = ''1'', IsMaster = True, IsReadOnly = True,
     Parameters = exampleParameters, Pool = noPool\<lparr>MaxIdleConnections := Some 100\<rparr>\<rparr>"

definition fullPoolConnection :: Connection where
  "fullPoolConnection = \<lparr>Name = ''master_rw'', IsMaster = True, IsReadOnly = False,
     Parameters = exampleParameters,
     Pool = \<lparr>ConnMaxLifetime = Some 600000000000, MaxIdleConnections = Some 100,
       MaxOpenConnections = Some 100, ConnMaxIdleTime = Some 60000000000\<rparr>\<rparr>"

definition pooledConfig :: Config where
  "pooledConfig = \<lparr>DSN = [], Cluster = ''desaenv08_foo'', HACluster = [], Schema = ''my_schema'',
     Connections = [idleOnlyConnection, fullPoolConnection]\<rparr>"

text \<open>
  The registry of the package's closing test: handles \<open>foo\<close>, \<open>bar\<close> and \<open>baz\<close>, opened
  in that order in direct mode.
\<close>

definition closingConfig :: Config where
  "closingConfig = \<lparr>DSN = ''root:password@tcp(localhost:3306)/close_with_error'', Cluster = [],
     HACluster = [], Schema = [],
     Connections = [plainConnection ''foo'', plainConnection ''bar'', plainConnection ''baz'']\<rparr>"

definition closingHandle :: DB where
  "closingHandle = \<lparr>driverName = ''mysql'',
     dataSourceName = ''root:password@tcp(localhost:3306)/close_with_error'', poolCalls = []\<rparr>"

definition closingRegistry :: connections where
  "closingRegistry =
     \<lparr>dbs = [(''foo'', closingHandle), (''bar'', closingHandle), (''baz'', closingHandle)]\<rparr>"

text \<open>A registry where only the handle \<open>bar\<close> fails to close.\<close>

definition oneBadCloseSQL :: SQL where
  "oneBadCloseSQL = plainSQL\<lparr>CloseError :=
     (\<lambda>db. if dataSourceName db = ''bad'' then Some ''driver: bad connection'' else None)\<rparr>"

definition mixedRegistry :: connections where
  "mixedRegistry =
     \<lparr>dbs = [(''foo'', closingHandle), (''bar'', closingHandle\<lparr>dataSourceName := ''bad''\<rparr>),
             (''baz'', closingHandle)]\<rparr>"

section \<open>Durations\<close>

text \<open>
  \<open>Duration\<close> wraps \<open>time.Duration\<close>, a signed 64-bit count of nanoseconds, here an
  \<open>int\<close> in that range. \<open>MarshalJSON\<close> formats it with \<open>time.Duration.String\<close> and
  \<open>UnmarshalJSON\<close> parses it with \<open>time.ParseDuration\<close>; both are functions of the Go
  standard library and are modelled here after its package \<open>time\<close>.
\<close>

definition Microsecond :: nat where "Microsecond = 1000"
definition Millisecond :: nat where "Millisecond = 1000 * Microsecond"
definition Second :: nat where "Second = 1000 * Millisecond"
definition Minute :: nat where "Minute = 60 * Second"
definition Hour :: nat where "Hour = 60 * Minute"

definition isDigit :: "char \<Rightarrow> bool" where
  "isDigit c = (CHR ''0'' \<le> c \<and> c \<le> CHR ''9'')"

text \<open>\<open>uint64(c) - '0'\<close> and \<open>byte(digit) + '0'\<close>\<close>

definition digitVal :: "char \<Rightarrow> nat" where
  "digitVal c = of_char c - 48"

definition digitChar :: "nat \<Rightarrow> char" where
  "digitChar n = char_of (n + 48)"

subsection \<open>Formatting\<close>

text \<open>
  The library writes from the end of a buffer towards its start; here the buffer is the
  string written so far, and writing a byte puts it in front.
\<close>

function fmtIntLoop :: "string \<Rightarrow> nat \<Rightarrow> string" where
  "fmtIntLoop buf v = (if v > 0 then fmtIntLoop (digitChar (v mod 10) # buf) (v div 10) else buf)"
  by pat_completeness auto
termination
  by (relation "measure snd") auto

definition fmtInt :: "string \<Rightarrow> nat \<Rightarrow> string" where
  "fmtInt buf v = (if v = 0 then CHR ''0'' # buf else fmtIntLoop buf v)"

text \<open>
  \<open>fmtFrac\<close> writes the last \<open>prec\<close> decimal digits of \<open>v\<close> as a fraction, without
  trailing zeros and without the point when the fraction is zero, and returns \<open>v\<close>
  without these digits.
\<close>

fun fmtFracLoop :: "nat \<Rightarrow> string \<Rightarrow> nat \<Rightarrow> bool \<Rightarrow> string \<times> nat \<times> bool" where
  "fmtFracLoop 0 buf v print = (buf, v, print)"
| "fmtFracLoop (Suc n) buf v print =
     (let digit = v mod 10;
          print = (print \<or> digit \<noteq> 0);
          buf = (if print then digitChar digit # buf else buf)
      in fmtFracLoop n buf (v div 10) print)"

definition fmtFrac :: "string \<Rightarrow> nat \<Rightarrow> nat \<Rightarrow> string \<times> nat" where
  "fmtFrac buf v prec =
     (case fmtFracLoop prec buf v False of
        (buf, v, print) \<Rightarrow> (if print then CHR ''.'' # buf else buf, v))"

text \<open>
  \<open>time.Duration.String\<close>. The micro sign is the two bytes \<open>0xC2 0xB5\<close>. The magnitude
  \<open>u\<close> is the absolute value of the duration.
\<close>

definition DurationString :: "int \<Rightarrow> string" where
  "DurationString d =
     (let u = nat \<bar>d\<bar>; neg = (d < 0) in
      if u = 0 then ''0s''
      else
        (let buf =
           (if u < Second then
              (let (prec, buf) =
                     (if u < Microsecond then (0, ''ns'')
                      else if u < Millisecond then (3, [CHR 0xC2, CHR 0xB5, CHR ''s''])
                      else (6, ''ms''));
                   (buf, u) = fmtFrac buf u prec
               in fmtInt buf u)
            else
              (let (buf, u) = fmtFrac ''s'' u 9;
                   buf = fmtInt buf (u mod 60);
                   u = u div 60
               in if u > 0
                  then (let buf = CHR ''m'' # buf;
                            buf = fmtInt buf (u mod 60);
                            u = u div 60
                        in if u > 0 then fmtInt (CHR ''h'' # buf) u else buf)
                  else buf))
         in if neg then CHR ''-'' # buf else buf))"

subsection \<open>Parsing\<close>

datatype parseError = InvalidDurationSyntax | MissingUnit | UnknownUnit string

text \<open>\<open>leadingInt\<close>: the leading digits as a number; \<open>None\<close> on overflow.\<close>

fun leadingIntLoop :: "nat \<Rightarrow> string \<Rightarrow> (nat \<times> string) option" where
  "leadingIntLoop x [] = Some (x, [])"
| "leadingIntLoop x (c # s) =
     (if \<not> isDigit c then Some (x, c # s)
      else if x > 2 ^ 63 div 10 then None
      else (let x = x * 10 + digitVal c
            in if x > 2 ^ 63 then None else leadingIntLoop x s))"

definition leadingInt :: "string \<Rightarrow> (nat \<times> string) option" where
  "leadingInt s = leadingIntLoop 0 s"

text \<open>
  \<open>leadingFraction\<close>: the leading digits as a number, as long as it does not overflow,
  the number of digits counted into the scale (the scale is \<open>1\<close> times \<open>10\<close> that many
  times, in floating point) and the rest after all the digits.
\<close>

fun leadingFractionLoop :: "nat \<Rightarrow> nat \<Rightarrow> bool \<Rightarrow> string \<Rightarrow> nat \<times> nat \<times> string" where
  "leadingFractionLoop x k overflow [] = (x, k, [])"
| "leadingFractionLoop x k overflow (c # s) =
     (if \<not> isDigit c then (x, k, c # s)
      else if overflow then leadingFractionLoop x k overflow s
      else if x > (2 ^ 63 - 1) div 10 then leadingFractionLoop x k True s
      else (let y = x * 10 + digitVal c
            in if y > 2 ^ 63 then leadingFractionLoop x k True s
               else leadingFractionLoop y (Suc k) overflow s))"

definition leadingFraction :: "string \<Rightarrow> nat \<times> nat \<times> string" where
  "leadingFraction s = leadingFractionLoop 0 0 False s"

text \<open>\<open>unitMap\<close>; the two spellings of the micro sign are U+00B5 and U+03BC in UTF-8.\<close>

definition unitMap :: "string \<Rightarrow> nat option" where
  "unitMap u =
     (if u = ''ns'' then Some 1
      else if u = ''us'' then Some Microsecond
      else if u = [CHR 0xC2, CHR 0xB5, CHR ''s''] then Some Microsecond
      else if u = [CHR 0xCE, CHR 0xBC, CHR ''s''] then Some Microsecond
      else if u = ''ms'' then Some Millisecond
      else if u = ''s'' then Some Second
      else if u = ''m'' then Some Minute
      else if u = ''h'' then Some Hour
      else None)"

text \<open>
  One pass of the loop of \<open>ParseDuration\<close>, up to its value in nanoseconds: a number, an
  optional fraction and a unit. The value of a non-zero fraction is computed in floating
  point, \<open>uint64(float64(f) * (float64(unit) / scale))\<close>; this computation is the
  parameter \<open>fraction\<close>, given \<open>f\<close>, the number of digits in the scale, and the unit.
\<close>

type_synonym fractionValue = "nat \<Rightarrow> nat \<Rightarrow> nat \<Rightarrow> nat"

definition parseTerm :: "fractionValue \<Rightarrow> string \<Rightarrow> parseError + (nat \<times> string)" where
  "parseTerm fraction s =
     (case s of
        [] \<Rightarrow> Inl InvalidDurationSyntax
      | c # _ \<Rightarrow>
          if \<not> (c = CHR ''.'' \<or> isDigit c) then Inl InvalidDurationSyntax
          else
            (case leadingInt s of
               None \<Rightarrow> Inl InvalidDurationSyntax
             | Some (v, s1) \<Rightarrow>
                 (let pre = (length s \<noteq> length s1);
                      (f, k, post, s2) =
                        (case s1 of
                           c1 # s1' \<Rightarrow>
                             if c1 = CHR ''.''
                             then (let (f, k, s2) = leadingFraction s1'
                                   in (f, k, length s1' \<noteq> length s2, s2))
                             else (0, 0, False, s1)
                         | [] \<Rightarrow> (0, 0, False, s1))
                  in if \<not> pre \<and> \<not> post then Inl InvalidDurationSyntax
                     else
                       (let u = takeWhile (\<lambda>c. \<not> (c = CHR ''.'' \<or> isDigit c)) s2;
                            s3 = dropWhile (\<lambda>c. \<not> (c = CHR ''.'' \<or> isDigit c)) s2
                        in if length u = 0 then Inl MissingUnit
                           else
                             (case unitMap u of
                                None \<Rightarrow> Inl (UnknownUnit u)
                              | Some unit \<Rightarrow>
                                  if v > 2 ^ 63 div unit then Inl InvalidDurationSyntax
                                  else
                                    (let v = v * unit
                                     in if f > 0
                                        then (let v = v + fraction f k unit
                                              in if v > 2 ^ 63 then Inl InvalidDurationSyntax
                                                 else Inr (v, s3))
                                        else Inr (v, s3)))))))"

text \<open>The loop of \<open>ParseDuration\<close>; the sum \<open>d\<close> is an unsigned 64-bit number.\<close>

function parseLoop :: "fractionValue \<Rightarrow> nat \<Rightarrow> string \<Rightarrow> parseError + nat" where
  "parseLoop fraction d s =
     (if s = [] then Inr d
      else
        (case parseTerm fraction s of
           Inl err \<Rightarrow> Inl err
         | Inr (v, rest) \<Rightarrow>
             (let d = (d + v) mod 2 ^ 64
              in if d > 2 ^ 63 then Inl InvalidDurationSyntax
                 else parseLoop fraction d rest)))"
  by pat_completeness auto
termination
proof (relation "measure (\<lambda>(fraction, d, s). length s)")
  show "wf (measure (\<lambda>(fraction, d, s). length s))" by simp
next
  fix fraction :: fractionValue and d :: nat and s :: string and x2 v rest and d' :: nat
  assume "s \<noteq> []" and t: "parseTerm fraction s = Inr x2" and x2: "(v, rest) = x2"
  have li: "length r \<le> length s" if "leadingIntLoop x s = Some (y, r)" for x y r and s :: string
    using that by (induction s arbitrary: x) (auto simp: Let_def le_SucI split: if_splits)
  have lf: "length r \<le> length s" if "leadingFractionLoop x k b s = (y, j, r)"
    for x k b y j r and s :: string
    using that by (induction s arbitrary: x k b) (auto simp: Let_def le_SucI split: if_splits)
  have dw: "length (dropWhile P xs) < length xs" if "takeWhile P xs \<noteq> []"
    for P and xs :: string
    using that by (induction xs) (auto split: if_splits simp: le_imp_less_Suc length_dropWhile_le)
  from t x2 obtain n s1 f k post s2 where
    1: "leadingInt s = Some (n, s1)" and
    2: "(f, k, post, s2) = (case s1 of
                           c1 # s1' \<Rightarrow>
                             if c1 = CHR ''.''
                             then (let (f, k, s2) = leadingFraction s1'
                                   in (f, k, length s1' \<noteq> length s2, s2))
                             else (0, 0, False, s1)
                         | [] \<Rightarrow> (0, 0, False, s1))" and
    3: "takeWhile (\<lambda>c. \<not> (c = CHR ''.'' \<or> isDigit c)) s2 \<noteq> []" and
    4: "rest = dropWhile (\<lambda>c. \<not> (c = CHR ''.'' \<or> isDigit c)) s2"
    unfolding parseTerm_def
    by (auto simp: Let_def split: list.splits if_splits option.splits prod.splits)
  from 1 have "length s1 \<le> length s" unfolding leadingInt_def by (rule li)
  moreover from 2 have "length s2 \<le> length s1"
    using lf unfolding leadingFraction_def
    by (fastforce split: list.splits if_splits prod.splits)
  moreover from 3 4 have "length rest < length s2" using dw by blast
  ultimately show "((fraction, d', rest), (fraction, d, s)) \<in> measure (\<lambda>(fraction, d, s). length s)"
    by simp
qed

text \<open>\<open>time.ParseDuration\<close>\<close>

definition ParseDuration :: "fractionValue \<Rightarrow> string \<Rightarrow> parseError + int" where
  "ParseDuration fraction orig =
     (let (neg, s) =
            (case orig of
               c # r \<Rightarrow> if c = CHR ''-'' \<or> c = CHR ''+'' then (c = CHR ''-'', r) else (False, orig)
             | [] \<Rightarrow> (False, orig))
      in if s = ''0'' then Inr 0
         else if s = [] then Inl InvalidDurationSyntax
         else
           (case parseLoop fraction 0 s of
              Inl err \<Rightarrow> Inl err
            | Inr d \<Rightarrow>
                if neg then Inr (- int d)
                else if d > 2 ^ 63 - 1 then Inl InvalidDurationSyntax
                else Inr (int d)))"

subsection \<open>The JSON methods of \<open>Duration\<close>\<close>

text \<open>
  \<open>encoding/json\<close> as the two methods use it: \<open>json.Marshal\<close> of a string, and
  \<open>json.Unmarshal\<close> into a string, \<open>None\<close> when it fails.
\<close>

record JSON =
  MarshalString :: "string \<Rightarrow> string"
  UnmarshalString :: "string \<Rightarrow> string option"

datatype unmarshalError = JSONError | InvalidDuration string

definition MarshalJSON :: "JSON \<Rightarrow> int \<Rightarrow> string" where
  "MarshalJSON json d = MarshalString json (DurationString d)"

definition UnmarshalJSON :: "JSON \<Rightarrow> fractionValue \<Rightarrow> string \<Rightarrow> unmarshalError + int" where
  "UnmarshalJSON json fraction bytes =
     (case UnmarshalString json bytes of
        None \<Rightarrow> Inl JSONError
      | Some duration \<Rightarrow>
          (case ParseDuration fraction duration of
             Inl err \<Rightarrow> Inl (InvalidDuration duration)
           | Inr parsedDuration \<Rightarrow> Inr parsedDuration))"


section \<open>Example inputs for durations\<close>

text \<open>The fraction computed exactly, as it is when the floating-point arithmetic is exact.\<close>

definition exactFraction :: fractionValue where
  "exactFraction f k unit = f * unit div 10 ^ k"

text \<open>JSON string literals without escape sequences.\<close>

definition plainJSON :: JSON where
  "plainJSON = \<lparr>MarshalString = (\<lambda>s. CHR 0x22 # s @ [CHR 0x22]),
     UnmarshalString = (\<lambda>bytes.
       case bytes of
         [] \<Rightarrow> None
       | c # rest \<Rightarrow>
           if c = CHR 0x22 \<and> rest \<noteq> [] \<and> last rest = CHR 0x22
              \<and> CHR 0x22 \<notin> set (butlast rest) \<and> CHR 0x5C \<notin> set (butlast rest)
           then Some (butlast rest) else None)\<rparr>"

subsection \<open>Canonical texts\<close>

text \<open>The decimal digits of a number, as \<open>fmtInt\<close> writes them.\<close>

definition decimal :: "nat \<Rightarrow> string" where
  "decimal v = fmtInt [] v"

text \<open>Reading one more decimal digit.\<close>

definition shift :: "nat \<Rightarrow> char \<Rightarrow> nat" where
  "shift a c = a * 10 + digitVal c"

text \<open>A unit: a non-empty run of bytes that are neither digits nor points.\<close>

definition unitChars :: "string \<Rightarrow> bool" where
  "unitChars u = (u \<noteq> [] \<and> list_all (\<lambda>c. \<not> (c = CHR ''.'' \<or> isDigit c)) u)"

text \<open>
  A duration that is a whole number of the unit it is displayed in, so that its text has
  no fraction.
\<close>

definition wholeDuration :: "int \<Rightarrow> bool" where
  "wholeDuration d =
     (let u = nat \<bar>d\<bar> in
        u < Microsecond
      \<or> (u < Millisecond \<and> u mod Microsecond = 0)
      \<or> (u < Second \<and> u mod Millisecond = 0)
      \<or> u mod Second = 0)"

text \<open>The digits \<open>fmtFrac\<close> writes for the last \<open>prec\<close> digits of a number.\<close>

definition fracDigits :: "nat \<Rightarrow> nat \<Rightarrow> bool \<Rightarrow> string" where
  "fracDigits prec v print = fst (fmtFracLoop prec [] v print)"

text \<open>The fraction \<open>fmtFrac\<close> writes for the last \<open>prec\<close> digits of a number.\<close>

definition fracText :: "nat \<Rightarrow> nat \<Rightarrow> string" where
  "fracText prec v = fst (fmtFrac [] v prec)"

text \<open>
  The canonical text of a positive duration: nanoseconds below a microsecond,
  microseconds below a millisecond, milliseconds below a second, and hours, minutes and
  seconds from a second on, the last number with its fraction.
\<close>

definition canonicalText :: "nat \<Rightarrow> string" where
  "canonicalText u =
     (if u < Microsecond then decimal u @ ''ns''
      else if u < Millisecond
        then decimal (u div Microsecond) @ fracText 3 u @ [CHR 0xC2, CHR 0xB5, CHR ''s'']
      else if u < Second then decimal (u div Millisecond) @ fracText 6 u @ ''ms''
      else (let n = u div Second in
              (if n div 60 div 60 > 0 then decimal (n div 60 div 60) @ ''h'' else [])
            @ (if n div 60 > 0 then decimal (n div 60 mod 60) @ ''m'' else [])
            @ decimal (n mod 60) @ fracText 9 u @ ''s''))"

text \<open>
  The floating-point value of a fraction is exact on a decimal fraction of a power of
  ten up to \<open>10 ^ 9\<close>: the quotient \<open>unit / scale\<close> is a power of ten and the product is
  an integer below \<open>10 ^ 9\<close>, both exact in double precision.
\<close>

definition exactDecimalFraction :: "fractionValue \<Rightarrow> bool" where
  "exactDecimalFraction fraction =
     (\<forall>f k p. k \<le> p \<and> p \<le> 9 \<and> f < 10 ^ k \<longrightarrow> fraction f k (10 ^ p) = f * 10 ^ (p - k))"

section \<open>The naming convention, as the specification words it\<close>

text \<open>
  The name of an environment variable: a prefix, the cluster and the schema (twice) in upper
  case, joined by underscores, and a role suffix.
\<close>

definition variableName :: "SQL \<Rightarrow> string \<Rightarrow> string \<Rightarrow> string \<Rightarrow> string \<Rightarrow> string" where
  "variableName sql prefix cluster schema suffix =
     prefix @ ToUpper sql cluster @ ''_'' @ ToUpper sql schema @ ''_'' @ ToUpper sql schema @ suffix"

text \<open>\<open>username:password@tcp(host)/schema[?extraParameters]\<close>\<close>

definition composeDSN :: "string \<Rightarrow> string \<Rightarrow> string \<Rightarrow> string \<Rightarrow> string \<Rightarrow> string" where
  "composeDSN username password host schema extraParameters =
     username @ '':'' @ password @ ''@tcp('' @ host @ '')/'' @ schema
       @ (if extraParameters \<noteq> [] then ''?'' @ extraParameters else [])"

definition roleSuffix :: "Connection \<Rightarrow> string" where
  "roleSuffix c = (if IsReadOnly c then ''_RPROD'' else ''_WPROD'')"

definition singleClusterDSN :: "SQL \<Rightarrow> environ \<Rightarrow> string \<Rightarrow> string \<Rightarrow> Connection \<Rightarrow> string" where
  "singleClusterDSN sql env cluster schema c =
     composeDSN (schema @ roleSuffix c)
       (Getenv env (variableName sql ''DB_MYSQL_'' cluster schema (roleSuffix c)))
       (Getenv env (variableName sql ''DB_MYSQL_'' cluster schema
          (if IsMaster c then ''_ENDPOINT'' else ''_LOCAL_REPLICA_ENDPOINT'')))
       schema (Parameters c)"

definition haClusterDSN :: "SQL \<Rightarrow> environ \<Rightarrow> string \<Rightarrow> string \<Rightarrow> Connection \<Rightarrow> string" where
  "haClusterDSN sql env cluster schema c =
     composeDSN (schema @ roleSuffix c)
       (Getenv env (variableName sql ''DB_HA_MYSQL_'' cluster schema (roleSuffix c)))
       (Getenv env (variableName sql ''DB_HA_MYSQL_'' cluster schema
          (if IsMaster c then ''_WR_ENDPOINT'' else ''_RO_ENDPOINT'')))
       schema (Parameters c)"

text \<open>The connection string of one spec under a configuration, by topology mode.\<close>

definition resolveDSN :: "SQL \<Rightarrow> environ \<Rightarrow> Config \<Rightarrow> Connection \<Rightarrow> string" where
  "resolveDSN sql env config c =
     (if DSN config \<noteq> [] then DSN config
      else if Cluster config \<noteq> [] then singleClusterDSN sql env (Cluster config) (Schema config) c
      else haClusterDSN sql env (HACluster config) (Schema config) c)"

text \<open>The handle registered for a spec: freshly opened, then tuned by the spec's pool.\<close>

definition handleFor :: "SQL \<Rightarrow> environ \<Rightarrow> Config \<Rightarrow> Connection \<Rightarrow> DB" where
  "handleFor sql env config c =
     applyConnectionPool (Pool c)
       \<lparr>driverName = getDriverName sql, dataSourceName = resolveDSN sql env config c, poolCalls = []\<rparr>"

section \<open>Properties of the opening loop\<close>

lemma openMySQL_singleClusterDSN:
  "openMySQL sql env cluster schema c tr = openDSN sql (singleClusterDSN sql env cluster schema c) tr"
  by (simp add: openMySQL_def singleClusterDSN_def composeDSN_def variableName_def
      roleSuffix_def Let_def)

lemma openMySQLHA_haClusterDSN:
  "openMySQLHA sql env cluster schema c tr = openDSN sql (haClusterDSN sql env cluster schema c) tr"
  by (simp add: openMySQLHA_def haClusterDSN_def composeDSN_def variableName_def
      roleSuffix_def Let_def)

text \<open>One pass of the loop body, once the replica check has passed and a mode is set.\<close>

lemma open_branch:
  assumes "DSN config \<noteq> [] \<or> Cluster config \<noteq> [] \<or> HACluster config \<noteq> []"
  shows "(if DSN config \<noteq> [] then openDSN sql (DSN config) tr
          else if Cluster config \<noteq> []
            then openMySQL sql env (Cluster config) (Schema config) c tr
          else if HACluster config \<noteq> []
            then openMySQLHA sql env (HACluster config) (Schema config) c tr
          else (tr, Inl NilHandle))
         = openDSN sql (resolveDSN sql env config c) tr"
  using assms
  by (auto simp: resolveDSN_def openMySQL_singleClusterDSN openMySQLHA_haClusterDSN)

lemma OpenLoop_Cons:
  assumes "DSN config \<noteq> [] \<or> Cluster config \<noteq> [] \<or> HACluster config \<noteq> []"
  shows "OpenLoop sql env config (c # rest) m tr =
     (if DSN config = [] \<and> \<not> IsMaster c \<and> \<not> IsReadOnly c
      then (tr, Inl (ReplicaWrite (Name c)))
      else case OpenError sql (getDriverName sql) (resolveDSN sql env config c) of
             Some e \<Rightarrow> (tr @ [resolveDSN sql env config c], Inl (DriverError e))
           | None \<Rightarrow>
               OpenLoop sql env config rest
                 (AList.update (Name c) (handleFor sql env config c) m)
                 (tr @ [resolveDSN sql env config c]))"
  unfolding OpenLoop.simps open_branch [OF assms]
  by (simp add: openDSN_def sqlOpen_def handleFor_def split: option.split)

declare OpenLoop.simps(2) [simp del]

lemma update_fresh: "k \<notin> fst ` set m \<Longrightarrow> AList.update k v m = m @ [(k, v)]"
  by (induction m) auto

text \<open>When the loop completes, it has attempted and registered every spec, in list order.\<close>

lemma OpenLoop_Inr:
  assumes "DSN config \<noteq> [] \<or> Cluster config \<noteq> [] \<or> HACluster config \<noteq> []"
    and "OpenLoop sql env config cs m tr = (tr', Inr m')"
    and "distinct (map Name cs)" and "Name ` set cs \<inter> fst ` set m = {}"
  shows "tr' = tr @ map (resolveDSN sql env config) cs
       \<and> m' = m @ map (\<lambda>c. (Name c, handleFor sql env config c)) cs"
  using assms(2-)
proof (induction cs arbitrary: m tr)
  case Nil
  then show ?case by simp
next
  case (Cons c cs)
  let ?m = "AList.update (Name c) (handleFor sql env config c) m"
  let ?tr = "tr @ [resolveDSN sql env config c]"
  from Cons.prems(1) have step: "OpenLoop sql env config cs ?m ?tr = (tr', Inr m')"
    unfolding OpenLoop_Cons [OF assms(1)] by (auto split: if_splits option.splits)
  from Cons.prems(3) have fresh: "Name c \<notin> fst ` set m" by auto
  then have m: "?m = m @ [(Name c, handleFor sql env config c)]" by (rule update_fresh)
  have "distinct (map Name cs)" using Cons.prems(2) by simp
  moreover have "Name ` set cs \<inter> fst ` set ?m = {}"
    using Cons.prems(2,3) unfolding m by auto
  ultimately have "tr' = ?tr @ map (resolveDSN sql env config) cs
       \<and> m' = ?m @ map (\<lambda>c. (Name c, handleFor sql env config c)) cs"
    using Cons.IH [OF step] by blast
  then show ?case unfolding m by simp
qed

text \<open>Whatever the outcome, the attempts made are those of a prefix of the specs.\<close>

lemma OpenLoop_attempts:
  assumes "DSN config \<noteq> [] \<or> Cluster config \<noteq> [] \<or> HACluster config \<noteq> []"
  shows "\<exists>n \<le> length cs.
           fst (OpenLoop sql env config cs m tr) = tr @ map (resolveDSN sql env config) (take n cs)"
proof (induction cs arbitrary: m tr)
  case Nil
  then show ?case by simp
next
  case (Cons c cs)
  show ?case
  proof (cases "DSN config = [] \<and> \<not> IsMaster c \<and> \<not> IsReadOnly c")
    case True
    then have "fst (OpenLoop sql env config (c # cs) m tr)
        = tr @ map (resolveDSN sql env config) (take 0 (c # cs))"
      unfolding OpenLoop_Cons [OF assms] by simp
    then show ?thesis by blast
  next
    case ok: False
    show ?thesis
    proof (cases "OpenError sql (getDriverName sql) (resolveDSN sql env config c)")
      case (Some e)
      with ok have "fst (OpenLoop sql env config (c # cs) m tr)
          = tr @ map (resolveDSN sql env config) (take 1 (c # cs))"
        unfolding OpenLoop_Cons [OF assms] by simp
      then show ?thesis
        by (metis One_nat_def Suc_leI length_Cons zero_less_Suc)
    next
      case None
      let ?m = "AList.update (Name c) (handleFor sql env config c) m"
      let ?tr = "tr @ [resolveDSN sql env config c]"
      from Cons.IH [of ?m ?tr] obtain n where n: "n \<le> length cs"
        "fst (OpenLoop sql env config cs ?m ?tr) = ?tr @ map (resolveDSN sql env config) (take n cs)"
        by blast
      from None ok have "fst (OpenLoop sql env config (c # cs) m tr)
          = tr @ map (resolveDSN sql env config) (take (Suc n) (c # cs))"
        unfolding OpenLoop_Cons [OF assms] using n(2) by simp
      moreover have "Suc n \<le> length (c # cs)" using n(1) by simp
      ultimately show ?thesis by blast
    qed
  qed
qed

section \<open>Properties of \<open>Open\<close>\<close>

lemma validateDuplicateNamesLoop_None:
  "(validateDuplicateNamesLoop cs seen = None)
     = (distinct (map Name cs) \<and> Name ` set cs \<inter> set seen = {})"
  by (induction cs arbitrary: seen) auto

lemma validateDuplicateNames_None:
  "(validateDuplicateNames cs = None) = distinct (map Name cs)"
  by (simp add: validateDuplicateNames_def validateDuplicateNamesLoop_None)

lemma invariant1_cases:
  "invariant1 config =
     ((DSN config \<noteq> [] \<and> Cluster config = [] \<and> HACluster config = [])
    \<or> (DSN config = [] \<and> Cluster config \<noteq> [] \<and> HACluster config = [])
    \<or> (DSN config = [] \<and> Cluster config = [] \<and> HACluster config \<noteq> []))"
  by (auto simp: invariant1_def)

lemma invariant1_mode:
  "invariant1 config \<Longrightarrow> DSN config \<noteq> [] \<or> Cluster config \<noteq> [] \<or> HACluster config \<noteq> []"
  by (auto simp: invariant1_cases)

lemma invariant2_cases:
  "invariant1 config \<Longrightarrow> invariant2 config = ((Schema config = []) = (DSN config \<noteq> []))"
  by (auto simp: invariant1_cases invariant2_def clusterMode_def)

text \<open>Past the checks before the loop, \<open>Open\<close> is its loop.\<close>

lemma Open_valid:
  assumes "invariant1 config" "invariant2 config" "invariant3 config" "invariant4 config"
  shows "Open sql env config =
     (case OpenLoop sql env config (Connections config) [] [] of
        (tr, Inl err) \<Rightarrow> (tr, Inl err)
      | (tr, Inr m) \<Rightarrow> (tr, Inr \<lparr>dbs = m\<rparr>))"
proof -
  have "validateDuplicateNames (Connections config) = None"
    using assms(4) by (simp add: validateDuplicateNames_None invariant4_def)
  moreover have "Connections config \<noteq> []" using assms(3) by (simp add: invariant3_def)
  moreover have "(Schema config = []) = (DSN config \<noteq> [])"
    using assms(1,2) by (simp add: invariant2_cases)
  ultimately show ?thesis
    using assms(1) unfolding Open_def invariant1_cases by auto
qed

text \<open>A configuration that breaks one of the first four invariants never reaches the loop.\<close>

lemma Open_invalid:
  assumes "\<not> (invariant1 config \<and> invariant2 config \<and> invariant3 config \<and> invariant4 config)"
  shows "\<exists>err. Open sql env config = ([], Inl err)"
proof -
  have dup: "validateDuplicateNames (Connections config) \<noteq> None" if "\<not> invariant4 config"
    using that by (simp add: validateDuplicateNames_None invariant4_def)
  show ?thesis
  proof (cases "invariant1 config")
    case False
    then show ?thesis unfolding Open_def invariant1_cases by auto
  next
    case i1: True
    show ?thesis
    proof (cases "invariant2 config")
      case False
      then have "(Schema config = []) \<noteq> (DSN config \<noteq> [])"
        using i1 by (simp add: invariant2_cases)
      then show ?thesis unfolding Open_def by auto
    next
      case i2: True
      show ?thesis
      proof (cases "invariant3 config")
        case False
        then show ?thesis unfolding Open_def by (auto simp: invariant3_def)
      next
        case True
        with i1 i2 assms have "\<not> invariant4 config" by blast
        from dup [OF this] show ?thesis unfolding Open_def by auto
      qed
    qed
  qed
qed

lemma Open_Inr_valid:
  assumes "snd (Open sql env config) = Inr reg"
  shows "invariant1 config \<and> invariant2 config \<and> invariant3 config \<and> invariant4 config"
  using assms Open_invalid [of config sql env] by fastforce

lemma dataSourceName_applyConnectionPool [simp]:
  "dataSourceName (applyConnectionPool pool db) = dataSourceName db"
  by (simp add: applyConnectionPool_def Let_def SetConnMaxLifetime_def SetMaxIdleConns_def
      SetMaxOpenConns_def SetConnMaxIdleTime_def split: option.split)

lemma dataSourceName_handleFor [simp]:
  "dataSourceName (handleFor sql env config c) = resolveDSN sql env config c"
  by (simp add: handleFor_def)

text \<open>
  When \<open>Open\<close> succeeds, it has attempted every spec in list order and the registry holds,
  for each spec, the handle opened for it.
\<close>

lemma Open_Inr:
  assumes "snd (Open sql env config) = Inr reg"
  shows "fst (Open sql env config) = map (resolveDSN sql env config) (Connections config)"
    and "dbs reg = map (\<lambda>c. (Name c, handleFor sql env config c)) (Connections config)"
proof -
  note inv = Open_Inr_valid [OF assms]
  obtain tr r where loop: "OpenLoop sql env config (Connections config) [] [] = (tr, r)"
    by (cases "OpenLoop sql env config (Connections config) [] []") blast
  with assms inv have r: "r = Inr (dbs reg)" and tr: "fst (Open sql env config) = tr"
    by (auto simp: Open_valid split: sum.splits)
  have "distinct (map Name (Connections config))" using inv by (simp add: invariant4_def)
  from OpenLoop_Inr [OF invariant1_mode loop [unfolded r] this] inv
  have "tr = map (resolveDSN sql env config) (Connections config)
      \<and> dbs reg = map (\<lambda>c. (Name c, handleFor sql env config c)) (Connections config)"
    by simp
  with tr show "fst (Open sql env config) = map (resolveDSN sql env config) (Connections config)"
    and "dbs reg = map (\<lambda>c. (Name c, handleFor sql env config c)) (Connections config)"
    by simp_all
qed

lemma map_of_named:
  "distinct (map Name cs) \<Longrightarrow> c \<in> set cs \<Longrightarrow> map_of (map (\<lambda>c. (Name c, h c)) cs) (Name c) = Some (h c)"
  by (induction cs) (auto simp: rev_image_eqI)

lemma Open_Inr_lookup:
  assumes "snd (Open sql env config) = Inr reg" and "c \<in> set (Connections config)"
  shows "map_of (dbs reg) (Name c) = Some (handleFor sql env config c)"
proof -
  have "distinct (map Name (Connections config))"
    using Open_Inr_valid [OF assms(1)] by (simp add: invariant4_def)
  then show ?thesis unfolding Open_Inr(2) [OF assms(1)] using assms(2) by (rule map_of_named)
qed

text \<open>Whatever the outcome, the attempts made are those of a prefix of the specs.\<close>

lemma Open_attempts:
  "\<exists>n \<le> length (Connections config).
     fst (Open sql env config) = map (resolveDSN sql env config) (take n (Connections config))"
proof (cases "invariant1 config \<and> invariant2 config \<and> invariant3 config \<and> invariant4 config")
  case True
  from OpenLoop_attempts [of config "Connections config" sql env "[]" "[]"] True
  obtain n where n: "n \<le> length (Connections config)"
    "fst (OpenLoop sql env config (Connections config) [] [])
       = map (resolveDSN sql env config) (take n (Connections config))"
    by (auto dest: invariant1_mode)
  have "fst (Open sql env config) = fst (OpenLoop sql env config (Connections config) [] [])"
    using True by (auto simp: Open_valid split: prod.splits sum.splits)
  with n show ?thesis by metis
next
  case False
  from Open_invalid [OF this, of sql env] have "fst (Open sql env config)
      = map (resolveDSN sql env config) (take 0 (Connections config))"
    by auto
  then show ?thesis by blast
qed

section \<open>Connection strings\<close>









section \<open>Direct mode\<close>

lemma resolveDSN_direct: "DSN config \<noteq> [] \<Longrightarrow> resolveDSN sql env config c = DSN config"
  by (simp add: resolveDSN_def)

lemma map_resolveDSN_direct:
  "DSN config \<noteq> [] \<Longrightarrow> map (resolveDSN sql env config) cs = replicate (length cs) (DSN config)"
  by (induction cs) (simp_all add: resolveDSN_direct)

text \<open>In direct mode the loop reads nothing of a spec but its name and pool.\<close>

lemma OpenLoop_direct_Parameters:
  assumes "DSN config \<noteq> []"
  shows "OpenLoop sql env config (map (\<lambda>c. c\<lparr>Parameters := f c\<rparr>) cs) m tr
       = OpenLoop sql env config cs m tr"
  using assms
  by (induction cs arbitrary: m tr) (auto simp: OpenLoop.simps(2) openDSN_def split: sum.splits)

lemma OpenLoop_config_cong:
  assumes "DSN c1 = DSN c2" "Cluster c1 = Cluster c2" "HACluster c1 = HACluster c2"
    "Schema c1 = Schema c2"
  shows "OpenLoop sql env c1 cs m tr = OpenLoop sql env c2 cs m tr"
  using assms
  by (induction cs arbitrary: m tr) (simp_all add: OpenLoop.simps(2) split: prod.splits sum.splits)

lemma validateDuplicateNamesLoop_Parameters:
  "validateDuplicateNamesLoop (map (\<lambda>c. c\<lparr>Parameters := f c\<rparr>) cs) seen
     = validateDuplicateNamesLoop cs seen"
  by (induction cs arbitrary: seen) simp_all

lemma Open_direct_Parameters:
  assumes "DSN config \<noteq> []"
  shows "Open sql env (config\<lparr>Connections := map (\<lambda>c. c\<lparr>Parameters := f c\<rparr>) (Connections config)\<rparr>)
       = Open sql env config"
proof -
  let ?config = "config\<lparr>Connections := map (\<lambda>c. c\<lparr>Parameters := f c\<rparr>) (Connections config)\<rparr>"
  have "OpenLoop sql env ?config (Connections ?config) [] []
      = OpenLoop sql env config (Connections ?config) [] []"
    by (rule OpenLoop_config_cong) simp_all
  also have "\<dots> = OpenLoop sql env config (Connections config) [] []"
    using OpenLoop_direct_Parameters [OF assms] by simp
  finally have "OpenLoop sql env ?config (map (\<lambda>c. c\<lparr>Parameters := f c\<rparr>) (Connections config)) [] []
      = OpenLoop sql env config (Connections config) [] []"
    by simp
  then show ?thesis
    by (simp add: Open_def validateDuplicateNames_def validateDuplicateNamesLoop_Parameters
        split: option.split)
qed

text \<open>
  C6. In direct mode, every attempt \<open>Open\<close> makes is with the configured DSN, every handle
  of the registry it returns carries exactly the configured DSN, and the result of \<open>Open\<close>
  does not depend on the parameters of any spec.
\<close>

theorem direct_mode_uses_DSN_verbatim:
  assumes "DSN config \<noteq> []"
  shows "(\<exists>n \<le> length (Connections config). fst (Open sql env config) = replicate n (DSN config))
       \<and> (\<forall>reg. snd (Open sql env config) = Inr reg \<longrightarrow>
             map fst (dbs reg) = map Name (Connections config)
           \<and> (\<forall>(name, db) \<in> set (dbs reg). dataSourceName db = DSN config))
       \<and> (\<forall>f. Open sql env
                 (config\<lparr>Connections := map (\<lambda>c. c\<lparr>Parameters := f c\<rparr>) (Connections config)\<rparr>)
               = Open sql env config)"
proof -
  have r: "map (resolveDSN sql env config) cs = replicate (length cs) (DSN config)" for cs
    using assms by (rule map_resolveDSN_direct)
  obtain n where n: "n \<le> length (Connections config)"
    "fst (Open sql env config) = map (resolveDSN sql env config) (take n (Connections config))"
    using Open_attempts [of config sql env] by blast
  then have "fst (Open sql env config) = replicate n (DSN config)"
    by (simp add: r min_absorb2)
  with n(1) have 1: "\<exists>n \<le> length (Connections config).
      fst (Open sql env config) = replicate n (DSN config)"
    by blast
  have 2: "map fst (dbs reg) = map Name (Connections config)
      \<and> (\<forall>(name, db) \<in> set (dbs reg). dataSourceName db = DSN config)"
    if "snd (Open sql env config) = Inr reg" for reg
    unfolding Open_Inr(2) [OF that] using assms by (auto simp: resolveDSN_direct comp_def)
  from 1 2 Open_direct_Parameters [OF assms] show ?thesis by blast
qed

theorem direct_mode_uses_DSN_verbatim_witness:
  "DSN directConfig \<noteq> []
   \<and> Open plainSQL Map.empty directConfig =
       (replicate 3 (DSN directConfig),
        Inr \<lparr>dbs = [(''foo'', \<lparr>driverName = ''mysql'',
                       dataSourceName = ''root:password@tcp(localhost:3306)/foo'', poolCalls = []\<rparr>),
                     (''bar'', \<lparr>driverName = ''mysql'',
                       dataSourceName = ''root:password@tcp(localhost:3306)/foo'', poolCalls = []\<rparr>),
                     (''baz'', \<lparr>driverName = ''mysql'',
                       dataSourceName = ''root:password@tcp(localhost:3306)/foo'', poolCalls = []\<rparr>)]\<rparr>)
   \<and> Open plainSQL Map.empty
       (directConfig\<lparr>Connections := map (\<lambda>c. c\<lparr>Parameters := ''charset=utf8mb4''\<rparr>)
          (Connections directConfig)\<rparr>)
     = Open plainSQL Map.empty directConfig"
proof -
  have h: "DSN directConfig \<noteq> []" by (simp add: directConfig_def)
  have ev: "Open plainSQL Map.empty directConfig =
       (replicate 3 (DSN directConfig),
        Inr \<lparr>dbs = [(''foo'', \<lparr>driverName = ''mysql'',
                       dataSourceName = ''root:password@tcp(localhost:3306)/foo'', poolCalls = []\<rparr>),
                     (''bar'', \<lparr>driverName = ''mysql'',
                       dataSourceName = ''root:password@tcp(localhost:3306)/foo'', poolCalls = []\<rparr>),
                     (''baz'', \<lparr>driverName = ''mysql'',
                       dataSourceName = ''root:password@tcp(localhost:3306)/foo'', poolCalls = []\<rparr>)]\<rparr>)"
    by code_simp
  from direct_mode_uses_DSN_verbatim [OF h, of plainSQL Map.empty]
  have "\<forall>f. Open plainSQL Map.empty
       (directConfig\<lparr>Connections := map (\<lambda>c. c\<lparr>Parameters := f c\<rparr>)
          (Connections directConfig)\<rparr>)
     = Open plainSQL Map.empty directConfig"
    by (elim conjE)
  from this [rule_format, of "\<lambda>c. ''charset=utf8mb4''"]
  have "Open plainSQL Map.empty
       (directConfig\<lparr>Connections := map (\<lambda>c. c\<lparr>Parameters := ''charset=utf8mb4''\<rparr>)
          (Connections directConfig)\<rparr>)
     = Open plainSQL Map.empty directConfig" .
  with h ev show ?thesis by blast
qed

section \<open>Outcomes of the loop\<close>

text \<open>
  The loop passes over a run of specs that pass the replica check and whose strings the
  driver accepts, registering a handle for each.
\<close>

lemma OpenLoop_append:
  assumes "DSN config \<noteq> [] \<or> Cluster config \<noteq> [] \<or> HACluster config \<noteq> []"
    and "\<forall>c \<in> set pre. (DSN config \<noteq> [] \<or> IsMaster c \<or> IsReadOnly c)
           \<and> OpenError sql (getDriverName sql) (resolveDSN sql env config c) = None"
  shows "OpenLoop sql env config (pre @ rest) m tr =
         OpenLoop sql env config rest
           (foldl (\<lambda>m c. AList.update (Name c) (handleFor sql env config c) m) m pre)
           (tr @ map (resolveDSN sql env config) pre)"
  using assms(2)
proof (induction pre arbitrary: m tr)
  case Nil
  then show ?case by simp
next
  case (Cons c pre)
  from Cons.prems have c: "DSN config \<noteq> [] \<or> IsMaster c \<or> IsReadOnly c"
    "OpenError sql (getDriverName sql) (resolveDSN sql env config c) = None"
    and pre: "\<forall>c \<in> set pre. (DSN config \<noteq> [] \<or> IsMaster c \<or> IsReadOnly c)
           \<and> OpenError sql (getDriverName sql) (resolveDSN sql env config c) = None"
    by simp_all
  have "OpenLoop sql env config ((c # pre) @ rest) m tr
      = OpenLoop sql env config (pre @ rest)
          (AList.update (Name c) (handleFor sql env config c) m)
          (tr @ [resolveDSN sql env config c])"
    using c by (auto simp: OpenLoop_Cons [OF assms(1)])
  then show ?case unfolding Cons.IH [OF pre] by simp
qed

lemma OpenLoop_succeeds:
  assumes "DSN config \<noteq> [] \<or> Cluster config \<noteq> [] \<or> HACluster config \<noteq> []"
    and "\<forall>c \<in> set cs. (DSN config \<noteq> [] \<or> IsMaster c \<or> IsReadOnly c)
           \<and> OpenError sql (getDriverName sql) (resolveDSN sql env config c) = None"
  shows "\<exists>m'. OpenLoop sql env config cs m tr = (tr @ map (resolveDSN sql env config) cs, Inr m')"
  using OpenLoop_append [OF assms, of "[]" m tr] by simp

lemma OpenLoop_replica:
  assumes "DSN config \<noteq> [] \<or> Cluster config \<noteq> [] \<or> HACluster config \<noteq> []"
    and "\<forall>c \<in> set pre. (DSN config \<noteq> [] \<or> IsMaster c \<or> IsReadOnly c)
           \<and> OpenError sql (getDriverName sql) (resolveDSN sql env config c) = None"
    and "DSN config = []" and "\<not> IsMaster c" and "\<not> IsReadOnly c"
  shows "OpenLoop sql env config (pre @ c # post) m tr
       = (tr @ map (resolveDSN sql env config) pre, Inl (ReplicaWrite (Name c)))"
  unfolding OpenLoop_append [OF assms(1,2)] using assms(3-)
  by (simp add: OpenLoop_Cons [OF assms(1)])

lemma OpenLoop_driver_error:
  assumes "DSN config \<noteq> [] \<or> Cluster config \<noteq> [] \<or> HACluster config \<noteq> []"
    and "\<forall>c \<in> set pre. (DSN config \<noteq> [] \<or> IsMaster c \<or> IsReadOnly c)
           \<and> OpenError sql (getDriverName sql) (resolveDSN sql env config c) = None"
    and "DSN config \<noteq> [] \<or> IsMaster c \<or> IsReadOnly c"
    and "OpenError sql (getDriverName sql) (resolveDSN sql env config c) = Some t"
  shows "OpenLoop sql env config (pre @ c # post) m tr
       = (tr @ map (resolveDSN sql env config) (pre @ [c]), Inl (DriverError t))"
  unfolding OpenLoop_append [OF assms(1,2)] using assms(3-)
  by (auto simp: OpenLoop_Cons [OF assms(1)])

text \<open>The loop stops with an error only at a spec that fails the replica check or that the
  driver refuses.\<close>

lemma OpenLoop_Inl:
  assumes "DSN config \<noteq> [] \<or> Cluster config \<noteq> [] \<or> HACluster config \<noteq> []"
    and "snd (OpenLoop sql env config cs m tr) = Inl e"
  shows "(DSN config = [] \<and> (\<exists>c \<in> set cs. \<not> IsMaster c \<and> \<not> IsReadOnly c
            \<and> e = ReplicaWrite (Name c)))
       \<or> (\<exists>c \<in> set cs. \<exists>t. OpenError sql (getDriverName sql) (resolveDSN sql env config c) = Some t
            \<and> e = DriverError t)"
  using assms(2)
proof (induction cs arbitrary: m tr)
  case Nil
  then show ?case by simp
next
  case (Cons c cs)
  show ?case
  proof (cases "DSN config = [] \<and> \<not> IsMaster c \<and> \<not> IsReadOnly c")
    case True
    with Cons.prems show ?thesis by (simp add: OpenLoop_Cons [OF assms(1)])
  next
    case ok: False
    show ?thesis
    proof (cases "OpenError sql (getDriverName sql) (resolveDSN sql env config c)")
      case (Some t)
      with ok Cons.prems have "e = DriverError t" by (auto simp: OpenLoop_Cons [OF assms(1)])
      with Some show ?thesis by auto
    next
      case None
      with ok Cons.prems have "snd (OpenLoop sql env config cs
          (AList.update (Name c) (handleFor sql env config c) m)
          (tr @ [resolveDSN sql env config c])) = Inl e"
        by (auto simp: OpenLoop_Cons [OF assms(1)])
      from Cons.IH [OF this] show ?thesis by auto
    qed
  qed
qed

section \<open>Validation\<close>

lemma validateDuplicateNamesLoop_Some:
  assumes "validateDuplicateNamesLoop cs seen = Some e"
  shows "\<exists>pre c post. cs = pre @ c # post \<and> distinct (map Name pre)
           \<and> Name ` set pre \<inter> set seen = {} \<and> Name c \<in> Name ` set pre \<union> set seen
           \<and> e = DuplicatedName (Name c)"
  using assms
proof (induction cs arbitrary: seen)
  case Nil
  then show ?case by simp
next
  case (Cons c cs)
  show ?case
  proof (cases "Name c \<in> set seen")
    case True
    with Cons.prems have "e = DuplicatedName (Name c)" by simp
    with True have "c # cs = [] @ c # cs \<and> distinct (map Name [])
           \<and> Name ` set [] \<inter> set seen = {} \<and> Name c \<in> Name ` set [] \<union> set seen
           \<and> e = DuplicatedName (Name c)"
      by simp
    then show ?thesis by blast
  next
    case False
    with Cons.prems have "validateDuplicateNamesLoop cs (Name c # seen) = Some e" by simp
    from Cons.IH [OF this] obtain pre d post where d: "cs = pre @ d # post"
      "distinct (map Name pre)" "Name ` set pre \<inter> set (Name c # seen) = {}"
      "Name d \<in> Name ` set pre \<union> set (Name c # seen)" "e = DuplicatedName (Name d)"
      by blast
    have "c # cs = (c # pre) @ d # post \<and> distinct (map Name (c # pre))
           \<and> Name ` set (c # pre) \<inter> set seen = {} \<and> Name d \<in> Name ` set (c # pre) \<union> set seen
           \<and> e = DuplicatedName (Name d)"
      using d False by auto
    then show ?thesis by blast
  qed
qed

text \<open>
  The error of a configuration that breaks one of the first four invariants: no attempt is
  made, the error is that of the first invariant broken, and for a repeated name it names
  the first spec whose name an earlier spec has.
\<close>

lemma Open_first_violation:
  assumes "\<not> (invariant1 config \<and> invariant2 config \<and> invariant3 config \<and> invariant4 config)"
  shows "\<exists>err. Open sql env config = ([], Inl err) \<and> invariantOf err = Some (hd (violated config))
           \<and> (hd (violated config) = 4 \<longrightarrow>
                (\<exists>pre c post. Connections config = pre @ c # post \<and> distinct (map Name pre)
                   \<and> Name c \<in> Name ` set pre \<and> err = DuplicatedName (Name c)))"
proof (cases "invariant1 config")
  case False
  then have "hd (violated config) = 1" by (simp add: violated_def)
  moreover from False have "Open sql env config = ([], Inl EmptyTopology)
      \<or> Open sql env config = ([], Inl DSNWithCluster)
      \<or> Open sql env config = ([], Inl ClusterWithHACluster)"
    unfolding Open_def invariant1_cases by auto
  ultimately show ?thesis by auto
next
  case i1: True
  show ?thesis
  proof (cases "invariant2 config")
    case False
    with i1 have "hd (violated config) = 2" by (simp add: violated_def)
    moreover from False i1 have "(Schema config = []) \<noteq> (DSN config \<noteq> [])"
      by (simp add: invariant2_cases)
    with i1 have "Open sql env config = ([], Inl DSNWithSchema)
        \<or> Open sql env config = ([], Inl SchemaMissing)"
      unfolding Open_def invariant1_cases by auto
    ultimately show ?thesis by auto
  next
    case i2: True
    with i1 have s: "(Schema config = []) = (DSN config \<noteq> [])" by (simp add: invariant2_cases)
    show ?thesis
    proof (cases "invariant3 config")
      case False
      with i1 i2 have "hd (violated config) = 3" by (simp add: violated_def)
      moreover from False i1 s have "Open sql env config = ([], Inl NoConnections)"
        unfolding Open_def invariant1_cases invariant3_def by auto
      ultimately show ?thesis by auto
    next
      case i3: True
      with i1 i2 assms have i4: "\<not> invariant4 config" by blast
      with i1 i2 i3 have h: "hd (violated config) = 4" by (simp add: violated_def)
      from i4 obtain e where e: "validateDuplicateNames (Connections config) = Some e"
        using validateDuplicateNames_None [of "Connections config"]
        by (auto simp: invariant4_def)
      from validateDuplicateNamesLoop_Some [OF e [unfolded validateDuplicateNames_def]]
      obtain pre c post where d: "Connections config = pre @ c # post" "distinct (map Name pre)"
        "Name c \<in> Name ` set pre" "e = DuplicatedName (Name c)"
        by auto
      from e i1 s i3 have "Open sql env config = ([], Inl e)"
        unfolding Open_def invariant1_cases invariant3_def by auto
      with d h show ?thesis by auto
    qed
  qed
qed

lemma Open_Inl_valid:
  assumes "invariant1 config" "invariant2 config" "invariant3 config" "invariant4 config"
    and "snd (Open sql env config) = Inl e"
  shows "snd (OpenLoop sql env config (Connections config) [] []) = Inl e"
  using assms(5) unfolding Open_valid [OF assms(1-4)] by (auto split: prod.splits sum.splits)

text \<open>
  C3. A configuration that violates more than one of the five invariants gets the error
  of the first one it violates, in the order 1 to 5, before any connection attempt; the
  error for a repeated name carries the first name that repeats an earlier one.
\<close>

theorem first_violated_invariant_is_reported:
  assumes "1 < length (violated config)"
  shows "\<exists>err. Open sql env config = ([], Inl err)
           \<and> invariantOf err = Some (hd (violated config))
           \<and> (hd (violated config) = 4 \<longrightarrow>
                (\<exists>pre c post. Connections config = pre @ c # post \<and> distinct (map Name pre)
                   \<and> Name c \<in> Name ` set pre \<and> err = DuplicatedName (Name c)))"
proof -
  have "\<not> (invariant1 config \<and> invariant2 config \<and> invariant3 config \<and> invariant4 config)"
    using assms by (auto simp: violated_def split: if_splits)
  then show ?thesis by (rule Open_first_violation)
qed

theorem first_violated_invariant_is_reported_witness:
  "1 < length (violated duplicateReplicaConfig)
   \<and> violated duplicateReplicaConfig = [4, 5]
   \<and> (\<exists>err. Open plainSQL Map.empty duplicateReplicaConfig = ([], Inl err)
         \<and> invariantOf err = Some 4 \<and> err = DuplicatedName ''foo'')"
proof -
  have v: "violated duplicateReplicaConfig = [4, 5]" by code_simp
  then have h: "1 < length (violated duplicateReplicaConfig)" by simp
  have ev: "Open plainSQL Map.empty duplicateReplicaConfig = ([], Inl (DuplicatedName ''foo''))"
    by code_simp
  from first_violated_invariant_is_reported [OF h, of plainSQL Map.empty]
  obtain err where "Open plainSQL Map.empty duplicateReplicaConfig = ([], Inl err)"
    "invariantOf err = Some (hd (violated duplicateReplicaConfig))"
    by blast
  with ev v h show ?thesis by simp
qed

section \<open>Configuration errors and connection attempts\<close>

lemma OpenLoop_Inr_checked:
  assumes "DSN config \<noteq> [] \<or> Cluster config \<noteq> [] \<or> HACluster config \<noteq> []"
    and "snd (OpenLoop sql env config cs m tr) = Inr m'" and "DSN config = []"
  shows "\<forall>c \<in> set cs. IsMaster c \<or> IsReadOnly c"
  using assms(2)
proof (induction cs arbitrary: m tr)
  case Nil
  then show ?case by simp
next
  case (Cons c cs)
  from Cons.prems assms(3) have c: "IsMaster c \<or> IsReadOnly c"
    by (auto simp: OpenLoop_Cons [OF assms(1)] split: if_splits)
  with Cons.prems have "snd (OpenLoop sql env config cs
      (AList.update (Name c) (handleFor sql env config c) m)
      (tr @ [resolveDSN sql env config c])) = Inr m'"
    by (auto simp: OpenLoop_Cons [OF assms(1)] split: if_splits option.splits)
  from Cons.IH [OF this] c show ?case by simp
qed

lemma Open_Inr_invariant5:
  assumes "snd (Open sql env config) = Inr reg"
  shows "invariant5 config"
proof (cases "clusterMode config")
  case False
  then show ?thesis by (simp add: invariant5_def)
next
  case True
  note inv = Open_Inr_valid [OF assms]
  with True have dsn: "DSN config = []" by (auto simp: invariant1_cases clusterMode_def)
  from assms inv have "snd (OpenLoop sql env config (Connections config) [] []) = Inr (dbs reg)"
    by (auto simp: Open_valid split: prod.splits sum.splits)
  from OpenLoop_Inr_checked [OF _ this dsn] inv show ?thesis
    by (auto simp: invariant5_def list_all_iff dest: invariant1_mode)
qed

lemma invalid_no_registry:
  assumes "violated config \<noteq> []"
  shows "\<exists>err. snd (Open sql env config) = Inl err"
proof (cases "snd (Open sql env config)")
  case (Inl err)
  then show ?thesis by blast
next
  case (Inr reg)
  from Open_Inr_valid [OF Inr] Open_Inr_invariant5 [OF Inr] assms show ?thesis
    by (simp add: violated_def)
qed

text \<open>
  C4, as the code has it. A configuration that violates one of the invariants never gets
  a registry. When the first invariant it violates is one of 1 to 4, \<open>Open\<close> returns the
  error of that invariant without any connection attempt; for a repeated name the error
  carries the first name that repeats an earlier one. When it violates invariant 5 only,
  the check is made spec by spec inside the loop: once the specs before the first
  offending one have been opened, \<open>Open\<close> returns the replica-write error naming that spec,
  with the attempts for those earlier specs made.
\<close>

theorem configuration_errors_and_attempts:
  assumes "violated config \<noteq> []"
  shows "(\<exists>err. snd (Open sql env config) = Inl err)
       \<and> (hd (violated config) \<noteq> 5 \<longrightarrow>
            (\<exists>err. Open sql env config = ([], Inl err)
               \<and> invariantOf err = Some (hd (violated config))))
       \<and> (hd (violated config) = 4 \<longrightarrow>
            (\<exists>pre c post. Connections config = pre @ c # post \<and> distinct (map Name pre)
               \<and> Name c \<in> Name ` set pre
               \<and> Open sql env config = ([], Inl (DuplicatedName (Name c)))))
       \<and> (hd (violated config) = 5 \<longrightarrow>
            (\<forall>pre c post. Connections config = pre @ c # post
               \<and> \<not> IsMaster c \<and> \<not> IsReadOnly c
               \<and> (\<forall>d \<in> set pre. (IsMaster d \<or> IsReadOnly d)
                     \<and> OpenError sql (getDriverName sql) (resolveDSN sql env config d) = None)
               \<longrightarrow> Open sql env config
                     = (map (resolveDSN sql env config) pre, Inl (ReplicaWrite (Name c)))))"
proof (cases "invariant1 config \<and> invariant2 config \<and> invariant3 config \<and> invariant4 config")
  case False
  then have "hd (violated config) \<noteq> 5" by (auto simp: violated_def)
  with Open_first_violation [OF False, of sql env] invalid_no_registry [OF assms, of sql env]
  show ?thesis by auto
next
  case True
  with assms have h: "hd (violated config) = 5" and i5: "\<not> invariant5 config"
    by (auto simp: violated_def split: if_splits)
  from i5 have "clusterMode config" by (auto simp: invariant5_def split: if_splits)
  with True have dsn: "DSN config = []" by (auto simp: invariant1_cases clusterMode_def)
  from True have mode: "DSN config \<noteq> [] \<or> Cluster config \<noteq> [] \<or> HACluster config \<noteq> []"
    by (auto dest: invariant1_mode)
  have "Open sql env config = (map (resolveDSN sql env config) pre, Inl (ReplicaWrite (Name c)))"
    if "Connections config = pre @ c # post" "\<not> IsMaster c" "\<not> IsReadOnly c"
      "\<forall>d \<in> set pre. (IsMaster d \<or> IsReadOnly d)
         \<and> OpenError sql (getDriverName sql) (resolveDSN sql env config d) = None"
    for pre c post
  proof -
    from that(4) have "\<forall>d \<in> set pre. (DSN config \<noteq> [] \<or> IsMaster d \<or> IsReadOnly d)
         \<and> OpenError sql (getDriverName sql) (resolveDSN sql env config d) = None"
      by blast
    from OpenLoop_replica [OF mode this dsn that(2,3), of post "[]" "[]"] True show ?thesis
      by (simp add: Open_valid that(1))
  qed
  with h invalid_no_registry [OF assms, of sql env] show ?thesis by simp
qed

theorem configuration_errors_and_attempts_witness:
  "violated duplicateReplicaConfig \<noteq> [] \<and> hd (violated duplicateReplicaConfig) = 4
   \<and> Open plainSQL singleClusterEnv duplicateReplicaConfig = ([], Inl (DuplicatedName ''foo''))
   \<and> violated masterThenReplicaWriteConfig \<noteq> [] \<and> hd (violated masterThenReplicaWriteConfig) = 5
   \<and> Connections masterThenReplicaWriteConfig = [masterConnection] @ plainConnection ''replica'' # []
   \<and> Open plainSQL singleClusterEnv masterThenReplicaWriteConfig
       = (map (resolveDSN plainSQL singleClusterEnv masterThenReplicaWriteConfig) [masterConnection],
          Inl (ReplicaWrite (Name (plainConnection ''replica''))))
   \<and> (\<exists>err. snd (Open plainSQL singleClusterEnv masterThenReplicaWriteConfig) = Inl err)"
proof -
  have v1: "violated duplicateReplicaConfig = [4, 5]" by code_simp
  have v2: "violated masterThenReplicaWriteConfig = [5]" by code_simp
  have ev1: "Open plainSQL singleClusterEnv duplicateReplicaConfig
      = ([], Inl (DuplicatedName ''foo''))"
    by code_simp
  have c: "Connections masterThenReplicaWriteConfig
      = [masterConnection] @ plainConnection ''replica'' # []"
    by (simp add: masterThenReplicaWriteConfig_def)
  have r: "\<not> IsMaster (plainConnection ''replica'')" "\<not> IsReadOnly (plainConnection ''replica'')"
    by (simp_all add: plainConnection_def)
  have pre: "\<forall>d \<in> set [masterConnection]. (IsMaster d \<or> IsReadOnly d)
      \<and> OpenError plainSQL (getDriverName plainSQL)
          (resolveDSN plainSQL singleClusterEnv masterThenReplicaWriteConfig d) = None"
    by (simp add: masterConnection_def plainSQL_def)
  have h2: "violated masterThenReplicaWriteConfig \<noteq> []" using v2 by simp
  have h5: "hd (violated masterThenReplicaWriteConfig) = 5" using v2 by simp
  note t = configuration_errors_and_attempts [OF h2, of plainSQL singleClusterEnv]
  from t have no: "\<exists>err. snd (Open plainSQL singleClusterEnv masterThenReplicaWriteConfig) = Inl err"
    by (rule conjunct1)
  from c r pre have "Connections masterThenReplicaWriteConfig
       = [masterConnection] @ plainConnection ''replica'' # []
     \<and> \<not> IsMaster (plainConnection ''replica'') \<and> \<not> IsReadOnly (plainConnection ''replica'')
     \<and> (\<forall>d \<in> set [masterConnection]. (IsMaster d \<or> IsReadOnly d)
      \<and> OpenError plainSQL (getDriverName plainSQL)
          (resolveDSN plainSQL singleClusterEnv masterThenReplicaWriteConfig d) = None)"
    by blast
  from t [THEN conjunct2, THEN conjunct2, THEN conjunct2, rule_format, OF h5 this]
  have ev2: "Open plainSQL singleClusterEnv masterThenReplicaWriteConfig
       = (map (resolveDSN plainSQL singleClusterEnv masterThenReplicaWriteConfig) [masterConnection],
          Inl (ReplicaWrite (Name (plainConnection ''replica''))))" .
  from v1 have a: "violated duplicateReplicaConfig \<noteq> []" "hd (violated duplicateReplicaConfig) = 4"
    by simp_all
  from a ev1 h2 h5 c ev2 no show ?thesis by blast
qed

text \<open>
  The claim as stated fails: with a master followed by a spec that is neither a master nor
  read-only, \<open>Open\<close> has opened the master's handle when it rejects the configuration.
\<close>

theorem replica_check_after_attempt_counterexample:
  "\<not> invariant5 masterThenReplicaWriteConfig
   \<and> Open plainSQL singleClusterEnv masterThenReplicaWriteConfig
       = ([''bar_WPROD:password@tcp(localhost:3306)/bar?'' @ exampleParameters],
          Inl (ReplicaWrite ''replica''))"
proof -
  have "\<not> invariant5 masterThenReplicaWriteConfig" by code_simp
  moreover have "Open plainSQL singleClusterEnv masterThenReplicaWriteConfig
       = ([''bar_WPROD:password@tcp(localhost:3306)/bar?'' @ exampleParameters],
          Inl (ReplicaWrite ''replica''))"
    by code_simp
  ultimately show ?thesis by (rule conjI)
qed

section \<open>The replica check in direct mode\<close>

lemma Open_Inl_cases:
  assumes "snd (Open sql env config) = Inl e"
  shows "invariantOf e \<in> {Some 1, Some 2, Some 3, Some 4}
       \<or> (DSN config = [] \<and> (\<exists>c \<in> set (Connections config). \<not> IsMaster c \<and> \<not> IsReadOnly c
             \<and> e = ReplicaWrite (Name c)))
       \<or> (\<exists>c \<in> set (Connections config). \<exists>t.
             OpenError sql (getDriverName sql) (resolveDSN sql env config c) = Some t
             \<and> e = DriverError t)"
proof (cases "invariant1 config \<and> invariant2 config \<and> invariant3 config \<and> invariant4 config")
  case False
  from Open_first_violation [OF False, of sql env] assms
  have "invariantOf e = Some (hd (violated config))" by auto
  moreover from False have "hd (violated config) \<in> {1, 2, 3, 4}"
    by (auto simp: violated_def)
  ultimately show ?thesis by auto
next
  case True
  then have "snd (OpenLoop sql env config (Connections config) [] []) = Inl e"
    using assms by (auto intro: Open_Inl_valid)
  from OpenLoop_Inl [OF _ this] True show ?thesis by (auto dest: invariant1_mode)
qed

text \<open>
  C10. In direct mode \<open>Open\<close> never returns the replica-write error, whatever the flags of
  the specs: a configuration that satisfies invariants 1 to 4 and whose DSN the driver
  accepts is opened, also when a spec is neither a master nor read-only.
\<close>

theorem direct_mode_skips_replica_check:
  assumes "DSN config \<noteq> []"
  shows "(\<forall>name. snd (Open sql env config) \<noteq> Inl (ReplicaWrite name))
       \<and> (invariant1 config \<and> invariant2 config \<and> invariant3 config \<and> invariant4 config
            \<and> OpenError sql (getDriverName sql) (DSN config) = None
          \<longrightarrow> (\<exists>reg. Open sql env config
                      = (replicate (length (Connections config)) (DSN config), Inr reg)))"
proof -
  have "snd (Open sql env config) \<noteq> Inl (ReplicaWrite name)" for name
    using Open_Inl_cases [of sql env config "ReplicaWrite name"] assms by auto
  moreover have "\<exists>reg. Open sql env config
      = (replicate (length (Connections config)) (DSN config), Inr reg)"
    if inv: "invariant1 config" "invariant2 config" "invariant3 config" "invariant4 config"
      and ok: "OpenError sql (getDriverName sql) (DSN config) = None"
  proof -
    have "\<forall>c \<in> set (Connections config). (DSN config \<noteq> [] \<or> IsMaster c \<or> IsReadOnly c)
        \<and> OpenError sql (getDriverName sql) (resolveDSN sql env config c) = None"
      using assms ok by (simp add: resolveDSN_direct)
    from OpenLoop_succeeds [OF _ this, of "[]" "[]"] assms
    obtain m where "OpenLoop sql env config (Connections config) [] []
        = (map (resolveDSN sql env config) (Connections config), Inr m)"
      by auto
    moreover have "map (resolveDSN sql env config) (Connections config)
        = replicate (length (Connections config)) (DSN config)"
      using assms by (rule map_resolveDSN_direct)
    ultimately show ?thesis by (simp add: Open_valid [OF inv])
  qed
  ultimately show ?thesis by blast
qed

theorem direct_mode_skips_replica_check_witness:
  "DSN directConfig \<noteq> []
   \<and> list_all (\<lambda>c. \<not> IsMaster c \<and> \<not> IsReadOnly c) (Connections directConfig)
   \<and> invariant1 directConfig \<and> invariant2 directConfig \<and> invariant3 directConfig
   \<and> invariant4 directConfig
   \<and> OpenError plainSQL (getDriverName plainSQL) (DSN directConfig) = None
   \<and> (\<exists>reg. Open plainSQL Map.empty directConfig
              = (replicate (length (Connections directConfig)) (DSN directConfig), Inr reg))"
proof -
  have h: "DSN directConfig \<noteq> []" by (simp add: directConfig_def)
  have f: "list_all (\<lambda>c. \<not> IsMaster c \<and> \<not> IsReadOnly c) (Connections directConfig)"
    by (simp add: directConfig_def plainConnection_def)
  have i: "invariant1 directConfig" "invariant2 directConfig" "invariant3 directConfig"
    "invariant4 directConfig"
    by (simp_all add: directConfig_def plainConnection_def invariant1_def invariant2_def
        invariant3_def invariant4_def clusterMode_def)
  have d: "OpenError plainSQL (getDriverName plainSQL) (DSN directConfig) = None"
    by (simp add: plainSQL_def)
  from i d have "invariant1 directConfig \<and> invariant2 directConfig \<and> invariant3 directConfig
      \<and> invariant4 directConfig
      \<and> OpenError plainSQL (getDriverName plainSQL) (DSN directConfig) = None"
    by blast
  from direct_mode_skips_replica_check [OF h, of plainSQL Map.empty, THEN conjunct2, rule_format,
      OF this]
  have "\<exists>reg. Open plainSQL Map.empty directConfig
      = (replicate (length (Connections directConfig)) (DSN directConfig), Inr reg)" .
  with h f i d show ?thesis by blast
qed

section \<open>Variables that are not set\<close>

lemma Getenv_total: "Getenv (\<lambda>key. Some (Getenv env key)) = Getenv env"
  by (rule ext) (simp add: Getenv_def)

lemma OpenLoop_Getenv:
  assumes "Getenv env1 = Getenv env2"
  shows "OpenLoop sql env1 config cs m tr = OpenLoop sql env2 config cs m tr"
  using assms
  by (induction cs arbitrary: m tr)
    (simp_all add: OpenLoop.simps(2) openMySQL_singleClusterDSN openMySQLHA_haClusterDSN
      singleClusterDSN_def haClusterDSN_def split: prod.splits sum.splits)

lemma Open_Getenv: "Getenv env1 = Getenv env2 \<Longrightarrow> Open sql env1 config = Open sql env2 config"
  by (simp add: Open_def OpenLoop_Getenv [of env1 env2] split: option.split)

lemma Open_succeeds:
  assumes "violated config = []"
    and "\<forall>c \<in> set (Connections config).
           OpenError sql (getDriverName sql) (resolveDSN sql env config c) = None"
  shows "\<exists>reg. Open sql env config = (map (resolveDSN sql env config) (Connections config), Inr reg)"
proof -
  from assms(1) have inv: "invariant1 config" "invariant2 config" "invariant3 config"
    "invariant4 config" "invariant5 config"
    by (auto simp: violated_def split: if_splits)
  have "DSN config \<noteq> [] \<or> IsMaster c \<or> IsReadOnly c" if "c \<in> set (Connections config)" for c
    using that inv(1,5) by (auto simp: invariant1_cases invariant5_def clusterMode_def list_all_iff)
  with assms(2) have "\<forall>c \<in> set (Connections config).
      (DSN config \<noteq> [] \<or> IsMaster c \<or> IsReadOnly c)
      \<and> OpenError sql (getDriverName sql) (resolveDSN sql env config c) = None"
    by blast
  from OpenLoop_succeeds [OF invariant1_mode [OF inv(1)] this, of "[]" "[]"]
  show ?thesis by (auto simp: Open_valid [OF inv(1-4)])
qed

text \<open>
  C7, as the code has it. \<open>Open\<close> does not tell a variable that is not set from one set
  to the empty string: the string is composed with an empty host or password and passed
  to the driver. The only errors of \<open>Open\<close> are the configuration errors and the errors
  of the driver, and \<open>Open\<close> succeeds on every configuration that satisfies the invariants
  when the driver accepts the strings composed, whatever the environment.
\<close>

theorem missing_variable_reads_as_empty:
  "Open sql env config = Open sql (\<lambda>key. Some (Getenv env key)) config
   \<and> (\<forall>err. snd (Open sql env config) = Inl err \<longrightarrow>
          invariantOf err \<noteq> None \<or> (\<exists>t. err = DriverError t))
   \<and> (violated config = []
        \<and> (\<forall>c \<in> set (Connections config).
              OpenError sql (getDriverName sql) (resolveDSN sql env config c) = None)
      \<longrightarrow> (\<exists>reg. Open sql env config
                  = (map (resolveDSN sql env config) (Connections config), Inr reg)))"
proof -
  have "Open sql env config = Open sql (\<lambda>key. Some (Getenv env key)) config"
    by (rule Open_Getenv) (simp add: Getenv_total)
  moreover have "invariantOf err \<noteq> None \<or> (\<exists>t. err = DriverError t)"
    if "snd (Open sql env config) = Inl err" for err
    using Open_Inl_cases [OF that] by auto
  ultimately show ?thesis using Open_succeeds [of config sql env] by blast
qed

theorem missing_variable_reads_as_empty_witness:
  "violated singleClusterConfig = []
   \<and> list_all (\<lambda>c. OpenError plainSQL (getDriverName plainSQL)
                      (resolveDSN plainSQL Map.empty singleClusterConfig c) = None)
         (Connections singleClusterConfig)
   \<and> (\<exists>reg. Open plainSQL Map.empty singleClusterConfig
              = (map (resolveDSN plainSQL Map.empty singleClusterConfig) (Connections singleClusterConfig),
                 Inr reg))
   \<and> map (resolveDSN plainSQL Map.empty singleClusterConfig) (Connections singleClusterConfig)
       = [''bar_WPROD:@tcp()/bar?'' @ exampleParameters]"
proof -
  have v: "violated singleClusterConfig = []" by code_simp
  have d: "\<forall>c \<in> set (Connections singleClusterConfig).
      OpenError plainSQL (getDriverName plainSQL) (resolveDSN plainSQL Map.empty singleClusterConfig c)
        = None"
    by (simp add: plainSQL_def)
  have r: "map (resolveDSN plainSQL Map.empty singleClusterConfig) (Connections singleClusterConfig)
       = [''bar_WPROD:@tcp()/bar?'' @ exampleParameters]"
    by code_simp
  from v d have "violated singleClusterConfig = []
        \<and> (\<forall>c \<in> set (Connections singleClusterConfig).
              OpenError plainSQL (getDriverName plainSQL)
                (resolveDSN plainSQL Map.empty singleClusterConfig c) = None)"
    by blast
  from missing_variable_reads_as_empty [of plainSQL Map.empty singleClusterConfig,
      THEN conjunct2, THEN conjunct2, rule_format, OF this]
  have "\<exists>reg. Open plainSQL Map.empty singleClusterConfig
      = (map (resolveDSN plainSQL Map.empty singleClusterConfig) (Connections singleClusterConfig),
         Inr reg)" .
  moreover have "list_all (\<lambda>c. OpenError plainSQL (getDriverName plainSQL)
                      (resolveDSN plainSQL Map.empty singleClusterConfig c) = None)
         (Connections singleClusterConfig)"
    using d by (simp add: list_all_iff)
  ultimately show ?thesis using v r by blast
qed

text \<open>
  The claim as stated fails: with no variable set at all, \<open>Open\<close> succeeds in single-cluster
  mode, and the handle carries a string with an empty host and an empty password.
\<close>

theorem missing_variable_counterexample:
  "Open plainSQL Map.empty singleClusterConfig
     = ([''bar_WPROD:@tcp()/bar?'' @ exampleParameters],
        Inr \<lparr>dbs = [(''foo'', \<lparr>driverName = ''mysql'',
           dataSourceName = ''bar_WPROD:@tcp()/bar?'' @ exampleParameters,
           poolCalls = []\<rparr>)]\<rparr>)"
  by code_simp

section \<open>Pool settings\<close>

lemma poolCalls_applyConnectionPool:
  "poolCalls (applyConnectionPool pool db) = poolCalls db
     @ (case ConnMaxLifetime pool of Some d \<Rightarrow> [CallSetConnMaxLifetime d] | None \<Rightarrow> [])
     @ (case MaxIdleConnections pool of Some n \<Rightarrow> [CallSetMaxIdleConns n] | None \<Rightarrow> [])
     @ (case MaxOpenConnections pool of Some n \<Rightarrow> [CallSetMaxOpenConns n] | None \<Rightarrow> [])
     @ (case ConnMaxIdleTime pool of Some d \<Rightarrow> [CallSetConnMaxIdleTime d] | None \<Rightarrow> [])"
  by (simp add: applyConnectionPool_def Let_def SetConnMaxLifetime_def SetMaxIdleConns_def
      SetMaxOpenConns_def SetConnMaxIdleTime_def split: option.split)

lemma poolCalls_handleFor:
  "poolCalls (handleFor sql env config c) =
       (case ConnMaxLifetime (Pool c) of Some d \<Rightarrow> [CallSetConnMaxLifetime d] | None \<Rightarrow> [])
     @ (case MaxIdleConnections (Pool c) of Some n \<Rightarrow> [CallSetMaxIdleConns n] | None \<Rightarrow> [])
     @ (case MaxOpenConnections (Pool c) of Some n \<Rightarrow> [CallSetMaxOpenConns n] | None \<Rightarrow> [])
     @ (case ConnMaxIdleTime (Pool c) of Some d \<Rightarrow> [CallSetConnMaxIdleTime d] | None \<Rightarrow> [])"
  by (simp add: handleFor_def poolCalls_applyConnectionPool)

text \<open>
  C8. When \<open>Open\<close> succeeds, the handle registered for a spec has had exactly the pool
  setters called that the spec has a value for, each once, with that value, in the order
  lifetime, idle count, open count, idle time: a setter is called if and only if its
  field is present. No setter is called for an absent field, so nothing is set to zero
  on its behalf.
\<close>

theorem pool_settings_applied_iff_present:
  assumes "snd (Open sql env config) = Inr reg" and "c \<in> set (Connections config)"
  shows "\<exists>db. map_of (dbs reg) (Name c) = Some db
     \<and> poolCalls db =
           (case ConnMaxLifetime (Pool c) of Some d \<Rightarrow> [CallSetConnMaxLifetime d] | None \<Rightarrow> [])
         @ (case MaxIdleConnections (Pool c) of Some n \<Rightarrow> [CallSetMaxIdleConns n] | None \<Rightarrow> [])
         @ (case MaxOpenConnections (Pool c) of Some n \<Rightarrow> [CallSetMaxOpenConns n] | None \<Rightarrow> [])
         @ (case ConnMaxIdleTime (Pool c) of Some d \<Rightarrow> [CallSetConnMaxIdleTime d] | None \<Rightarrow> [])
     \<and> (\<forall>v. (CallSetConnMaxLifetime v \<in> set (poolCalls db)) = (ConnMaxLifetime (Pool c) = Some v))
     \<and> (\<forall>v. (CallSetMaxIdleConns v \<in> set (poolCalls db)) = (MaxIdleConnections (Pool c) = Some v))
     \<and> (\<forall>v. (CallSetMaxOpenConns v \<in> set (poolCalls db)) = (MaxOpenConnections (Pool c) = Some v))
     \<and> (\<forall>v. (CallSetConnMaxIdleTime v \<in> set (poolCalls db)) = (ConnMaxIdleTime (Pool c) = Some v))"
proof -
  let ?db = "handleFor sql env config c"
  have "map_of (dbs reg) (Name c) = Some ?db" using assms by (rule Open_Inr_lookup)
  moreover have "(CallSetConnMaxLifetime v \<in> set (poolCalls ?db))
      = (ConnMaxLifetime (Pool c) = Some v)" for v
    by (auto simp: poolCalls_handleFor split: option.splits)
  moreover have "(CallSetMaxIdleConns v \<in> set (poolCalls ?db))
      = (MaxIdleConnections (Pool c) = Some v)" for v
    by (auto simp: poolCalls_handleFor split: option.splits)
  moreover have "(CallSetMaxOpenConns v \<in> set (poolCalls ?db))
      = (MaxOpenConnections (Pool c) = Some v)" for v
    by (auto simp: poolCalls_handleFor split: option.splits)
  moreover have "(CallSetConnMaxIdleTime v \<in> set (poolCalls ?db))
      = (ConnMaxIdleTime (Pool c) = Some v)" for v
    by (auto simp: poolCalls_handleFor split: option.splits)
  ultimately show ?thesis using poolCalls_handleFor [of sql env config c] by blast
qed

theorem pool_settings_applied_iff_present_witness:
  "\<exists>reg. snd (Open plainSQL Map.empty pooledConfig) = Inr reg
     \<and> idleOnlyConnection \<in> set (Connections pooledConfig)
     \<and> fullPoolConnection \<in> set (Connections pooledConfig)
     \<and> (\<exists>db. map_of (dbs reg) ''1'' = Some db \<and> poolCalls db = [CallSetMaxIdleConns 100])
     \<and> (\<exists>db. map_of (dbs reg) ''master_rw'' = Some db
           \<and> poolCalls db = [CallSetConnMaxLifetime 600000000000, CallSetMaxIdleConns 100,
                 CallSetMaxOpenConns 100, CallSetConnMaxIdleTime 60000000000])"
proof -
  have "violated pooledConfig = []" by code_simp
  moreover have "\<forall>c \<in> set (Connections pooledConfig).
      OpenError plainSQL (getDriverName plainSQL) (resolveDSN plainSQL Map.empty pooledConfig c) = None"
    by (simp add: plainSQL_def)
  ultimately obtain reg where reg: "snd (Open plainSQL Map.empty pooledConfig) = Inr reg"
    using Open_succeeds [of pooledConfig plainSQL Map.empty] by auto
  have c1: "idleOnlyConnection \<in> set (Connections pooledConfig)"
    and c2: "fullPoolConnection \<in> set (Connections pooledConfig)"
    by (simp_all add: pooledConfig_def)
  from pool_settings_applied_iff_present [OF reg c1]
  have 1: "\<exists>db. map_of (dbs reg) ''1'' = Some db \<and> poolCalls db = [CallSetMaxIdleConns 100]"
    by (simp add: idleOnlyConnection_def noPool_def) blast
  from pool_settings_applied_iff_present [OF reg c2]
  have 2: "\<exists>db. map_of (dbs reg) ''master_rw'' = Some db
       \<and> poolCalls db = [CallSetConnMaxLifetime 600000000000, CallSetMaxIdleConns 100,
             CallSetMaxOpenConns 100, CallSetConnMaxIdleTime 60000000000]"
    by (simp add: fullPoolConnection_def) blast
  from reg c1 c2 1 2 show ?thesis by blast
qed

section \<open>Properties of \<open>Close\<close>\<close>

text \<open>Over names that are keys of the map, the loop closes every name and never panics.\<close>

lemma CloseLoop_closed_form:
  assumes "set names \<subseteq> fst ` set m"
  shows "CloseLoop sql m names closed errs
       = Some (closed @ names, errs @ closeFailures sql m names)"
  using assms
proof (induction names arbitrary: closed errs)
  case Nil
  then show ?case by (simp add: closeFailures_def map_filter_simps)
next
  case (Cons name names)
  from Cons.prems obtain db where db: "map_of m name = Some db"
    by (cases "map_of m name") (auto simp: map_of_eq_None_iff)
  from Cons.prems have rest: "set names \<subseteq> fst ` set m" by simp
  show ?case
  proof (cases "CloseError sql db")
    case None
    with db show ?thesis
      by (simp add: Cons.IH [OF rest] closeFailures_def map_filter_simps)
  next
    case (Some err)
    with db show ?thesis
      by (simp add: Cons.IH [OF rest] closeFailures_def map_filter_simps)
  qed
qed

lemma closeFailures_Nil_iff:
  assumes "set names \<subseteq> fst ` set m"
  shows "(closeFailures sql m names = [])
       = (\<forall>name \<in> set names. \<forall>db. map_of m name = Some db \<longrightarrow> CloseError sql db = None)"
  using assms
proof (induction names)
  case Nil
  then show ?case by (simp add: closeFailures_def map_filter_simps)
next
  case (Cons name names)
  then show ?case
    by (cases "map_of m name")
      (auto simp: closeFailures_def map_filter_simps split: option.splits)
qed

lemma closeFailures_concat:
  "closeFailures sql m names
     = concat (map (\<lambda>name. case map_of m name of
                            None \<Rightarrow> []
                          | Some db \<Rightarrow> (case CloseError sql db of
                                        None \<Rightarrow> []
                                      | Some err \<Rightarrow> [name @ '': '' @ err])) names)"
  unfolding closeFailures_def
  by (induction names) (auto simp: map_filter_simps split: option.splits)

text \<open>
  The order in which the map hands out its keys does not matter: two association lists
  with distinct keys and the same entries are closed alike.
\<close>

lemma CloseLoop_map_of_cong:
  "map_of m1 = map_of m2 \<Longrightarrow>
     CloseLoop sql m1 names closed errs = CloseLoop sql m2 names closed errs"
  by (induction names arbitrary: closed errs) (simp_all split: option.splits)

lemma Close_key_order:
  assumes "distinct (map fst m1)" and "distinct (map fst m2)" and "set m1 = set m2"
  shows "Close sql \<lparr>dbs = m1\<rparr> = Close sql \<lparr>dbs = m2\<rparr>"
proof -
  have "map_of m1 = map_of m2" using assms by (simp add: map_of_inject_set)
  moreover have "sort (map fst m1) = sort (map fst m2)"
  proof (rule sorted_distinct_set_unique)
    show "set (sort (map fst m1)) = set (sort (map fst m2))" using assms(3) by simp
  qed (simp_all add: assms(1,2))
  ultimately show ?thesis
    by (simp add: Close_def Let_def CloseLoop_map_of_cong [of m1 m2])
qed

text \<open>
  C2. \<open>Close\<close> calls \<open>Close\<close> on every handle of the registry, once, in increasing order
  of name, whether or not earlier ones fail. It returns no error if and only if every
  close succeeds; otherwise its error text is \<open>failed to close connections: \<close> followed
  by the failures, each rendered \<open>name: underlying-error\<close>, in that order, joined by a
  comma and a space. The result does not depend on the order in which the map hands out
  its keys.
\<close>

theorem Close_sorted_aggregate:
  assumes "distinct (map fst (dbs c))"
  shows "\<exists>closed result. Close sql c = Some (closed, result)
       \<and> closed = sort (map fst (dbs c))
       \<and> sorted closed \<and> distinct closed \<and> set closed = fst ` set (dbs c)
       \<and> (result = None) = (\<forall>(name, db) \<in> set (dbs c). CloseError sql db = None)
       \<and> (result \<noteq> None \<longrightarrow>
            result = Some (CloseFailure (''failed to close connections: ''
                       @ Join (closeFailures sql (dbs c) closed) '', '')))
       \<and> closeFailures sql (dbs c) closed
           = concat (map (\<lambda>name. case map_of (dbs c) name of
                                   None \<Rightarrow> []
                                 | Some db \<Rightarrow> (case CloseError sql db of
                                               None \<Rightarrow> []
                                             | Some err \<Rightarrow> [name @ '': '' @ err])) closed)
       \<and> (\<forall>m. distinct (map fst m) \<and> set m = set (dbs c) \<longrightarrow>
              Close sql \<lparr>dbs = m\<rparr> = Close sql \<lparr>dbs = dbs c\<rparr>)"
proof -
  let ?names = "sort (map fst (dbs c))"
  let ?errs = "closeFailures sql (dbs c) ?names"
  have keys: "set ?names \<subseteq> fst ` set (dbs c)" by simp
  have loop: "CloseLoop sql (dbs c) ?names [] [] = Some (?names, ?errs)"
    using CloseLoop_closed_form [OF keys, of sql "[]" "[]"] by simp
  define result where "result = (if length ?errs > 0
      then Some (CloseFailure (''failed to close connections: '' @ Join ?errs '', ''))
      else None)"
  have close: "Close sql c = Some (?names, result)"
    by (simp add: Close_def Let_def loop result_def)
  have "(?errs = []) = (\<forall>(name, db) \<in> set (dbs c). CloseError sql db = None)"
    unfolding closeFailures_Nil_iff [OF keys] using assms by (auto simp: map_of_eq_Some_iff)
  then have none: "(result = None) = (\<forall>(name, db) \<in> set (dbs c). CloseError sql db = None)"
    by (simp add: result_def)
  have msg: "result \<noteq> None \<longrightarrow>
      result = Some (CloseFailure (''failed to close connections: '' @ Join ?errs '', ''))"
    by (simp add: result_def)
  have flat: "?errs = concat (map (\<lambda>name. case map_of (dbs c) name of
                                   None \<Rightarrow> []
                                 | Some db \<Rightarrow> (case CloseError sql db of
                                               None \<Rightarrow> []
                                             | Some err \<Rightarrow> [name @ '': '' @ err])) ?names)"
    by (rule closeFailures_concat)
  have "sorted ?names" "distinct ?names" "set ?names = fst ` set (dbs c)"
    using assms by simp_all
  moreover have "\<forall>m. distinct (map fst m) \<and> set m = set (dbs c) \<longrightarrow>
      Close sql \<lparr>dbs = m\<rparr> = Close sql \<lparr>dbs = dbs c\<rparr>"
    using assms by (auto intro: Close_key_order)
  ultimately show ?thesis using close none msg flat by blast
qed

theorem Close_sorted_aggregate_witness:
  "distinct (map fst (dbs closingRegistry))
   \<and> snd (Open failingCloseSQL Map.empty closingConfig) = Inr closingRegistry
   \<and> Close failingCloseSQL closingRegistry
       = Some ([''bar'', ''baz'', ''foo''],
           Some (CloseFailure (''failed to close connections: ''
             @ ''bar: driver: bad connection, baz: driver: bad connection, ''
             @ ''foo: driver: bad connection'')))
   \<and> Close plainSQL closingRegistry = Some ([''bar'', ''baz'', ''foo''], None)
   \<and> Close oneBadCloseSQL mixedRegistry
       = Some ([''bar'', ''baz'', ''foo''],
           Some (CloseFailure ''failed to close connections: bar: driver: bad connection''))
   \<and> (\<exists>closed result. Close failingCloseSQL closingRegistry = Some (closed, result)
         \<and> sorted closed \<and> set closed = {''foo'', ''bar'', ''baz''} \<and> result \<noteq> None)"
proof -
  have h: "distinct (map fst (dbs closingRegistry))"
    by (simp add: closingRegistry_def)
  have op: "snd (Open failingCloseSQL Map.empty closingConfig) = Inr closingRegistry"
    by code_simp
  have ev1: "Close failingCloseSQL closingRegistry
       = Some ([''bar'', ''baz'', ''foo''],
           Some (CloseFailure (''failed to close connections: ''
             @ ''bar: driver: bad connection, baz: driver: bad connection, ''
             @ ''foo: driver: bad connection'')))"
    by code_simp
  have ev2: "Close plainSQL closingRegistry = Some ([''bar'', ''baz'', ''foo''], None)"
    by code_simp
  have ev3: "Close oneBadCloseSQL mixedRegistry
       = Some ([''bar'', ''baz'', ''foo''],
           Some (CloseFailure ''failed to close connections: bar: driver: bad connection''))"
    by code_simp
  from Close_sorted_aggregate [OF h, of failingCloseSQL]
  obtain closed result where c: "Close failingCloseSQL closingRegistry = Some (closed, result)"
    "sorted closed" "set closed = fst ` set (dbs closingRegistry)"
    by blast
  from c(1) ev1 have "result \<noteq> None" by auto
  moreover from c(3) have "set closed = {''foo'', ''bar'', ''baz''}"
    by (simp add: closingRegistry_def)
  ultimately have "\<exists>closed result. Close failingCloseSQL closingRegistry = Some (closed, result)
         \<and> sorted closed \<and> set closed = {''foo'', ''bar'', ''baz''} \<and> result \<noteq> None"
    using c(1,2) by blast
  with h op ev1 ev2 ev3 show ?thesis by blast
qed

section \<open>Durations: formatting and parsing\<close>

declare fmtIntLoop.simps [simp del]
declare parseLoop.simps [simp del]

lemma of_char_digitChar: "n < 10 \<Longrightarrow> of_char (digitChar n) = n + 48"
  by (simp add: digitChar_def)

lemma isDigit_iff: "isDigit c = (48 \<le> (of_char c :: nat) \<and> (of_char c :: nat) \<le> 57)"
  by (simp add: isDigit_def less_eq_char_def)

lemma isDigit_digitChar: "n < 10 \<Longrightarrow> isDigit (digitChar n)"
  by (simp add: isDigit_iff of_char_digitChar)

lemma digitVal_digitChar: "n < 10 \<Longrightarrow> digitVal (digitChar n) = n"
  by (simp add: digitVal_def of_char_digitChar)

lemma isDigit_not_special: "isDigit c \<Longrightarrow> c \<noteq> CHR ''.'' \<and> c \<noteq> CHR ''-'' \<and> c \<noteq> CHR ''+''"
  by (auto simp: isDigit_iff)

lemma fmtIntLoop_append: "fmtIntLoop buf v = fmtIntLoop [] v @ buf"
proof (induction v arbitrary: buf rule: less_induct)
  case (less v)
  show ?case
  proof (cases "v > 0")
    case True
    then have lt: "v div 10 < v" by simp
    have "fmtIntLoop buf v = fmtIntLoop (digitChar (v mod 10) # buf) (v div 10)"
      using True by (subst fmtIntLoop.simps) simp
    also have "\<dots> = fmtIntLoop [] (v div 10) @ digitChar (v mod 10) # buf"
      by (rule less.IH [OF lt])
    also have "\<dots> = (fmtIntLoop [] (v div 10) @ [digitChar (v mod 10)]) @ buf"
      by simp
    also have "fmtIntLoop [] (v div 10) @ [digitChar (v mod 10)]
        = fmtIntLoop [digitChar (v mod 10)] (v div 10)"
      by (rule less.IH [OF lt, symmetric])
    also have "\<dots> = fmtIntLoop [] v"
      using True by (subst (2) fmtIntLoop.simps) simp
    finally show ?thesis .
  next
    case False
    then show ?thesis by (simp add: fmtIntLoop.simps [of _ 0])
  qed
qed

lemma fmtIntLoop_step:
  "v > 0 \<Longrightarrow> fmtIntLoop [] v = fmtIntLoop [] (v div 10) @ [digitChar (v mod 10)]"
  by (subst fmtIntLoop.simps) (simp add: fmtIntLoop_append [of "[_]"])

lemma fmtIntLoop_zero: "fmtIntLoop buf 0 = buf"
  by (simp add: fmtIntLoop.simps [of _ 0])

lemma fmtInt_decimal: "fmtInt buf v = decimal v @ buf"
  by (simp add: decimal_def fmtInt_def fmtIntLoop_append [of buf])

lemma decimal_nonempty: "decimal v \<noteq> []"
  by (cases "v = 0") (simp_all add: decimal_def fmtInt_def fmtIntLoop_step)

lemma fmtIntLoop_digits: "\<forall>c \<in> set (fmtIntLoop [] v). isDigit c"
proof (induction v rule: less_induct)
  case (less v)
  show ?case
  proof (cases "v > 0")
    case True
    then have "v div 10 < v" by simp
    from less.IH [OF this] True show ?thesis
      by (simp add: fmtIntLoop_step isDigit_digitChar)
  next
    case False
    then show ?thesis by (simp add: fmtIntLoop_zero)
  qed
qed

lemma decimal_digits: "\<forall>c \<in> set (decimal v). isDigit c"
  using fmtIntLoop_digits [of v]
  by (simp add: decimal_def fmtInt_def isDigit_iff)


lemma fmtIntLoop_value: "foldl shift 0 (fmtIntLoop [] v) = v"
proof (induction v rule: less_induct)
  case (less v)
  show ?case
  proof (cases "v > 0")
    case True
    then have "v div 10 < v" by simp
    from less.IH [OF this] True show ?thesis
      by (simp add: fmtIntLoop_step digitVal_digitChar shift_def)
  next
    case False
    then show ?thesis by (simp add: fmtIntLoop_zero)
  qed
qed

lemma decimal_value: "foldl shift 0 (decimal v) = v"
  using fmtIntLoop_value [of v]
  by (simp add: decimal_def fmtInt_def digitVal_def shift_def)

lemma foldl_shift_ge: "x \<le> foldl shift x ds"
proof (induction ds arbitrary: x)
  case Nil
  show ?case by simp
next
  case (Cons c ds)
  have "x \<le> shift x c" by (simp add: shift_def)
  also have "\<dots> \<le> foldl shift (shift x c) ds" by (rule Cons.IH)
  finally show ?case by simp
qed

lemma leadingIntLoop_digits:
  assumes "\<forall>c \<in> set ds. isDigit c" and "rest = [] \<or> \<not> isDigit (hd rest)"
    and "foldl shift x ds \<le> 2 ^ 63"
  shows "leadingIntLoop x (ds @ rest) = Some (foldl shift x ds, rest)"
  using assms(1,3)
proof (induction ds arbitrary: x)
  case Nil
  with assms(2) show ?case by (cases rest) simp_all
next
  case (Cons c ds)
  let ?y = "shift x c"
  from Cons.prems have c: "isDigit c" and ds: "\<forall>c \<in> set ds. isDigit c"
    and b: "foldl shift ?y ds \<le> 2 ^ 63"
    by simp_all
  from foldl_shift_ge [of ?y ds] b have y: "x * 10 + digitVal c \<le> 2 ^ 63"
    by (simp add: shift_def)
  then have x: "\<not> x > 2 ^ 63 div 10" by simp
  from Cons.IH [OF ds b] c x y show ?case by (simp add: Let_def shift_def)
qed

lemma leadingInt_decimal:
  assumes "rest = [] \<or> \<not> isDigit (hd rest)" and "n \<le> 2 ^ 63"
  shows "leadingInt (decimal n @ rest) = Some (n, rest)"
  using leadingIntLoop_digits [OF decimal_digits assms(1), of 0 n] assms(2)
  by (simp add: leadingInt_def decimal_value)


lemma takeWhile_unit:
  assumes "unitChars u" and "rest = [] \<or> hd rest = CHR ''.'' \<or> isDigit (hd rest)"
  shows "takeWhile (\<lambda>c. \<not> (c = CHR ''.'' \<or> isDigit c)) (u @ rest) = u"
    and "dropWhile (\<lambda>c. \<not> (c = CHR ''.'' \<or> isDigit c)) (u @ rest) = rest"
proof -
  from assms(1) have u: "\<forall>c \<in> set u. \<not> (c = CHR ''.'' \<or> isDigit c)"
    by (simp add: unitChars_def list_all_iff)
  from assms(2) have r: "takeWhile (\<lambda>c. \<not> (c = CHR ''.'' \<or> isDigit c)) rest = []"
    "dropWhile (\<lambda>c. \<not> (c = CHR ''.'' \<or> isDigit c)) rest = rest"
    by (cases rest; auto)+
  from u r show "takeWhile (\<lambda>c. \<not> (c = CHR ''.'' \<or> isDigit c)) (u @ rest) = u"
    and "dropWhile (\<lambda>c. \<not> (c = CHR ''.'' \<or> isDigit c)) (u @ rest) = rest"
    by (simp_all add: takeWhile_append2 dropWhile_append2)
qed

text \<open>A term without a fraction: a number in decimal and a unit.\<close>

lemma parseTerm_no_fraction:
  assumes "s = c # t" and "isDigit c" and "leadingInt s = Some (n, a # r)"
    and "a \<noteq> CHR ''.''" and "length s \<noteq> length (a # r)"
    and "takeWhile (\<lambda>c. \<not> (c = CHR ''.'' \<or> isDigit c)) (a # r) = u"
    and "dropWhile (\<lambda>c. \<not> (c = CHR ''.'' \<or> isDigit c)) (a # r) = rest"
    and "u \<noteq> []" and "unitMap u = Some unit" and "n \<le> 2 ^ 63 div unit"
  shows "parseTerm fraction s = Inr (n * unit, rest)"
  unfolding parseTerm_def assms(3) using assms(2,4,5,6,7,8,9,10)
  by (simp add: assms(1) Let_def del: takeWhile.simps dropWhile.simps)

lemma parseTerm_whole:
  assumes "unitMap u = Some unit" and "unitChars u"
    and "rest = [] \<or> hd rest = CHR ''.'' \<or> isDigit (hd rest)"
    and "n \<le> 2 ^ 63 div unit"
  shows "parseTerm fraction (decimal n @ u @ rest) = Inr (n * unit, rest)"
proof -
  obtain c cs where dec: "decimal n = c # cs"
    using decimal_nonempty [of n] by (cases "decimal n") auto
  with decimal_digits [of n] have c: "isDigit c" by simp
  obtain a as where u: "u = a # as" using assms(2) by (cases u) (auto simp: unitChars_def)
  with assms(2) have a: "a \<noteq> CHR ''.''" "\<not> isDigit a" by (auto simp: unitChars_def)
  have "(2::nat) ^ 63 div unit \<le> 2 ^ 63" by (rule div_le_dividend)
  with assms(4) have n: "n \<le> 2 ^ 63" by (rule order_trans)
  have "leadingInt (decimal n @ (a # as @ rest)) = Some (n, a # as @ rest)"
    using a n by (intro leadingInt_decimal) simp_all
  then have li: "leadingInt (decimal n @ u @ rest) = Some (n, a # as @ rest)"
    by (simp add: u)
  have s: "decimal n @ u @ rest = c # (cs @ u @ rest)" by (simp add: dec)
  have len: "length (decimal n @ u @ rest) \<noteq> length (a # as @ rest)" by (simp add: dec u)
  have tw: "takeWhile (\<lambda>c. \<not> (c = CHR ''.'' \<or> isDigit c)) (a # as @ rest) = u"
    and dw: "dropWhile (\<lambda>c. \<not> (c = CHR ''.'' \<or> isDigit c)) (a # as @ rest) = rest"
    using takeWhile_unit [OF assms(2,3)] by (simp_all add: u)
  have ne: "u \<noteq> []" by (simp add: u)
  show ?thesis
    by (rule parseTerm_no_fraction [OF s c li a(1) len tw dw ne assms(1,4)])
qed


lemma parseLoop_Nil: "parseLoop fraction d [] = Inr d"
  by (simp add: parseLoop.simps)

lemma parseLoop_Inr:
  assumes "s \<noteq> []" and "parseTerm fraction s = Inr (v, rest)" and "d + v \<le> 2 ^ 63"
  shows "parseLoop fraction d s = parseLoop fraction (d + v) rest"
proof -
  have "(d + v) mod 2 ^ 64 = d + v" using assms(3) by simp
  with assms show ?thesis by (subst parseLoop.simps) (simp add: Let_def)
qed

lemma parseLoop_whole:
  assumes "unitMap u = Some unit" and "unitChars u"
    and "rest = [] \<or> hd rest = CHR ''.'' \<or> isDigit (hd rest)"
    and "n \<le> 2 ^ 63 div unit" and "d + n * unit \<le> 2 ^ 63"
  shows "parseLoop fraction d (decimal n @ u @ rest) = parseLoop fraction (d + n * unit) rest"
proof -
  have ne: "decimal n @ u @ rest \<noteq> []" using decimal_nonempty [of n] by simp
  show ?thesis by (rule parseLoop_Inr [OF ne parseTerm_whole [OF assms(1-4)] assms(5)])
qed


lemma mod_Suc_power10: "(v::nat) mod 10 ^ Suc n = 10 * (v div 10 mod 10 ^ n) + v mod 10"
  by (simp add: mod_mult2_eq)

lemma div_Suc_power10: "(v::nat) div 10 ^ Suc n = v div 10 div 10 ^ n"
  by (simp add: div_mult2_eq)

lemma fmtFracLoop_buf:
  "fmtFracLoop prec buf v print
     = (fst (fmtFracLoop prec [] v print) @ buf, v div 10 ^ prec, print \<or> v mod 10 ^ prec \<noteq> 0)"
proof (induction prec arbitrary: buf v print)
  case 0
  show ?case by simp
next
  case (Suc n)
  let ?p = "print \<or> v mod 10 \<noteq> 0"
  let ?d = "if ?p then [digitChar (v mod 10)] else []"
  have step: "fmtFracLoop (Suc n) b v print = fmtFracLoop n (?d @ b) (v div 10) ?p" for b
    by (simp add: Let_def)
  have flag: "(?p \<or> v div 10 mod 10 ^ n \<noteq> 0) = (print \<or> v mod 10 ^ Suc n \<noteq> 0)"
    unfolding mod_Suc_power10 by auto
  have "fmtFracLoop (Suc n) buf v print
      = (fst (fmtFracLoop n [] (v div 10) ?p) @ ?d @ buf, v div 10 div 10 ^ n,
         ?p \<or> v div 10 mod 10 ^ n \<noteq> 0)"
    unfolding step by (rule Suc.IH)
  moreover have "fst (fmtFracLoop (Suc n) [] v print) = fst (fmtFracLoop n [] (v div 10) ?p) @ ?d"
    unfolding step by (subst Suc.IH) simp
  ultimately show ?case unfolding flag div_Suc_power10 by simp
qed

lemma fmtFracLoop_digits:
  "(\<forall>c \<in> set (fracDigits prec v print). isDigit c) \<and> length (fracDigits prec v print) \<le> prec
   \<and> (print \<longrightarrow> length (fracDigits prec v print) = prec)
   \<and> foldl shift 0 (fracDigits prec v print) * 10 ^ (prec - length (fracDigits prec v print))
       = v mod 10 ^ prec
   \<and> (\<not> print \<and> v mod 10 ^ prec = 0 \<longrightarrow> fracDigits prec v print = [])"
proof (induction prec arbitrary: v print)
  case 0
  show ?case by (simp add: fracDigits_def)
next
  case (Suc n)
  define p where "p = (print \<or> v mod 10 \<noteq> 0)"
  define d where "d = (if p then [digitChar (v mod 10)] else [])"
  define E where "E = fracDigits n (v div 10) p"
  have app: "fst (fmtFracLoop n b w q) = fst (fmtFracLoop n [] w q) @ b" for b w q
    by (subst fmtFracLoop_buf) simp
  have "fmtFracLoop (Suc n) [] v print = fmtFracLoop n d (v div 10) p"
    by (simp add: Let_def p_def d_def)
  then have step: "fracDigits (Suc n) v print = E @ d"
    unfolding fracDigits_def E_def by (simp only: app [where b = d])
  note IH = Suc.IH [of "v div 10" p, folded E_def]
  note dig = IH [THEN conjunct1]
    and len = IH [THEN conjunct2, THEN conjunct1]
    and full = IH [THEN conjunct2, THEN conjunct2, THEN conjunct1]
    and v0 = IH [THEN conjunct2, THEN conjunct2, THEN conjunct2, THEN conjunct1]
    and nil = IH [THEN conjunct2, THEN conjunct2, THEN conjunct2, THEN conjunct2]
  show ?case
  proof (cases p)
    case True
    with full have l: "length E = n" by simp
    with v0 have val: "foldl shift 0 E = v div 10 mod 10 ^ n" by simp
    from True have d: "d = [digitChar (v mod 10)]" by (simp add: d_def)
    have "foldl shift 0 (E @ d) = 10 * (v div 10 mod 10 ^ n) + v mod 10"
      by (simp add: d shift_def val digitVal_digitChar)
    moreover have "length (E @ d) = Suc n" by (simp add: d l)
    moreover have "\<forall>c \<in> set (E @ d). isDigit c" using dig by (simp add: d isDigit_digitChar)
    moreover have "print \<or> v mod 10 ^ Suc n \<noteq> 0"
      using True unfolding p_def mod_Suc_power10 by auto
    ultimately show ?thesis unfolding step mod_Suc_power10 by auto
  next
    case False
    then have z: "v mod 10 = 0" and np: "\<not> print" by (simp_all add: p_def)
    from False have d: "d = []" by (simp add: d_def)
    from len have "Suc n - length E = Suc (n - length E)" by simp
    then have "foldl shift 0 E * 10 ^ (Suc n - length E) = 10 * (v div 10 mod 10 ^ n)"
      using v0 by simp
    with False z np len dig nil show ?thesis
      unfolding step mod_Suc_power10 d by auto
  qed
qed

lemma fmtFrac_fracText: "fmtFrac buf v prec = (fracText prec v @ buf, v div 10 ^ prec)"
  unfolding fracText_def fmtFrac_def
  by (subst fmtFracLoop_buf, subst (2) fmtFracLoop_buf) simp

text \<open>
  The fraction is empty when the digits are all zero; otherwise it is a point and at least
  one and at most \<open>prec\<close> digits, which read as a number \<open>f\<close> with
  \<open>f * 10 ^ (prec - k) = v mod 10 ^ prec\<close> for their number \<open>k\<close>.
\<close>

lemma fracText_cases:
  "(v mod 10 ^ prec = 0 \<and> fracText prec v = [])
   \<or> (v mod 10 ^ prec \<noteq> 0 \<and>
       (\<exists>ds. fracText prec v = CHR ''.'' # ds \<and> ds \<noteq> [] \<and> (\<forall>c \<in> set ds. isDigit c)
          \<and> length ds \<le> prec
          \<and> foldl shift 0 ds * 10 ^ (prec - length ds) = v mod 10 ^ prec))"
proof -
  let ?D = "fracDigits prec v False"
  have ft: "fracText prec v = (if v mod 10 ^ prec \<noteq> 0 then CHR ''.'' # ?D else ?D)"
    unfolding fracText_def fmtFrac_def fracDigits_def by (subst fmtFracLoop_buf) simp
  note d = fmtFracLoop_digits [of prec v False]
  show ?thesis
  proof (cases "v mod 10 ^ prec = 0")
    case True
    with d ft show ?thesis by simp
  next
    case False
    with d have "?D \<noteq> []" by auto
    with False d ft show ?thesis by auto
  qed
qed

lemma leadingFractionLoop_digits:
  assumes "\<forall>c \<in> set ds. isDigit c" and "rest = [] \<or> \<not> isDigit (hd rest)"
    and "foldl shift x ds \<le> (2 ^ 63 - 1) div 10"
  shows "leadingFractionLoop x k False (ds @ rest) = (foldl shift x ds, k + length ds, rest)"
  using assms(1,3)
proof (induction ds arbitrary: x k)
  case Nil
  with assms(2) show ?case by (cases rest) simp_all
next
  case (Cons c ds)
  let ?y = "shift x c"
  from Cons.prems have c: "isDigit c" and ds: "\<forall>c \<in> set ds. isDigit c"
    and b: "foldl shift ?y ds \<le> (2 ^ 63 - 1) div 10"
    by simp_all
  from foldl_shift_ge [of ?y ds] b have y: "x * 10 + digitVal c \<le> (2 ^ 63 - 1) div 10"
    by (simp add: shift_def)
  then have x: "\<not> x > (2 ^ 63 - 1) div 10" and y': "\<not> x * 10 + digitVal c > 2 ^ 63"
    by simp_all
  from Cons.IH [OF ds b, of "Suc k"] c x y' show ?case by (simp add: Let_def shift_def)
qed


lemma parseTerm_with_fraction:
  assumes "s = c # t" and "isDigit c" and "leadingInt s = Some (n, CHR ''.'' # s1)"
    and "leadingFraction s1 = (f, k, a # r)" and "length s1 \<noteq> length (a # r)"
    and "takeWhile (\<lambda>c. \<not> (c = CHR ''.'' \<or> isDigit c)) (a # r) = u"
    and "dropWhile (\<lambda>c. \<not> (c = CHR ''.'' \<or> isDigit c)) (a # r) = rest"
    and "u \<noteq> []" and "unitMap u = Some unit" and "n \<le> 2 ^ 63 div unit"
    and "0 < f" and "n * unit + fraction f k unit \<le> 2 ^ 63"
  shows "parseTerm fraction s = Inr (n * unit + fraction f k unit, rest)"
  unfolding parseTerm_def assms(3) using assms(2,5,6,7,8,9,10,11,12)
  by (simp add: assms(1,4) Let_def del: takeWhile.simps dropWhile.simps)

lemma unitChars_Cons: "unitChars u \<Longrightarrow> \<exists>a as. u = a # as \<and> a \<noteq> CHR ''.'' \<and> \<not> isDigit a"
  by (cases u) (auto simp: unitChars_def)

text \<open>The last term of a canonical text: a number, its fraction and a unit.\<close>

lemma parseLoop_last:
  assumes "unitMap u = Some (10 ^ p)" and "unitChars u" and "p \<le> 9"
    and "n \<le> 2 ^ 63 div 10 ^ p" and "d + n * 10 ^ p + w mod 10 ^ p \<le> 2 ^ 63"
    and "w mod 10 ^ p = 0 \<or> exactDecimalFraction fraction"
  shows "parseLoop fraction d (decimal n @ fracText p w @ u) = Inr (d + n * 10 ^ p + w mod 10 ^ p)"
proof -
  from fracText_cases [of w p] show ?thesis
  proof (elim disjE conjE exE)
    assume z: "w mod 10 ^ p = 0" and f: "fracText p w = []"
    have "parseLoop fraction d (decimal n @ u @ []) = parseLoop fraction (d + n * 10 ^ p) []"
      using assms(5) by (intro parseLoop_whole assms(1,2,4)) simp_all
    then show ?thesis by (simp add: f z parseLoop_Nil)
  next
    fix ds
    assume nz: "w mod 10 ^ p \<noteq> 0" and f: "fracText p w = CHR ''.'' # ds" and ne: "ds \<noteq> []"
      and dig: "\<forall>c \<in> set ds. isDigit c" and len: "length ds \<le> p"
      and val: "foldl shift 0 ds * 10 ^ (p - length ds) = w mod 10 ^ p"
    define f0 where "f0 = foldl shift 0 ds"
    define k where "k = length ds"
    from nz assms(6) have exact: "exactDecimalFraction fraction" by simp
    have "f0 * 10 ^ (p - k) < 10 ^ k * 10 ^ (p - k)"
      using val len by (simp add: f0_def k_def power_add [symmetric])
    then have fk: "f0 < 10 ^ k" by simp
    have "(10::nat) ^ k \<le> 10 ^ 9" using len assms(3) by (intro power_increasing) (simp_all add: k_def)
    with fk have small: "f0 \<le> (2 ^ 63 - 1) div 10" by simp
    from val nz have pos: "0 < f0" by (cases "f0 = 0") (simp_all add: f0_def)
    have fr: "fraction f0 k (10 ^ p) = w mod 10 ^ p"
      using exact len assms(3) fk val unfolding exactDecimalFraction_def f0_def k_def by simp
    obtain c cs where dec: "decimal n = c # cs"
      using decimal_nonempty [of n] by (cases "decimal n") auto
    with decimal_digits [of n] have c: "isDigit c" by simp
    obtain a as where u: "u = a # as" and a: "a \<noteq> CHR ''.''" "\<not> isDigit a"
      using unitChars_Cons [OF assms(2)] by blast
    have "(2::nat) ^ 63 div 10 ^ p \<le> 2 ^ 63" by (rule div_le_dividend)
    with assms(4) have n: "n \<le> 2 ^ 63" by (rule order_trans)
    have "\<not> isDigit CHR ''.''" by (simp add: isDigit_iff)
    then have li: "leadingInt (decimal n @ CHR ''.'' # ds @ u) = Some (n, CHR ''.'' # ds @ u)"
      using n by (intro leadingInt_decimal) simp_all
    have lf: "leadingFraction (ds @ u) = (f0, k, a # as)"
      using leadingFractionLoop_digits [OF dig _ small [unfolded f0_def], of u 0] a
      by (simp add: leadingFraction_def f0_def k_def u)
    have s: "decimal n @ CHR ''.'' # ds @ u = c # (cs @ CHR ''.'' # ds @ u)" by (simp add: dec)
    have post: "length (ds @ u) \<noteq> length (a # as)" using ne by (simp add: u)
    have tw: "takeWhile (\<lambda>c. \<not> (c = CHR ''.'' \<or> isDigit c)) (a # as) = u"
      and dw: "dropWhile (\<lambda>c. \<not> (c = CHR ''.'' \<or> isDigit c)) (a # as) = []"
      using takeWhile_unit [OF assms(2), of "[]"] by (simp_all add: u)
    have un: "u \<noteq> []" by (simp add: u)
    have b: "n * 10 ^ p + fraction f0 k (10 ^ p) \<le> 2 ^ 63" using assms(5) by (simp add: fr)
    have t: "parseTerm fraction (decimal n @ CHR ''.'' # ds @ u) = Inr (n * 10 ^ p + w mod 10 ^ p, [])"
      using parseTerm_with_fraction [where fraction = fraction and f = f0 and k = k
          and unit = "10 ^ p", OF s c li lf post tw dw un assms(1,4) pos b]
      by (simp add: fr)
    have "parseLoop fraction d (decimal n @ CHR ''.'' # ds @ u)
        = parseLoop fraction (d + (n * 10 ^ p + w mod 10 ^ p)) []"
      using assms(5) by (intro parseLoop_Inr t) (simp_all add: dec)
    then show ?thesis by (simp add: f parseLoop_Nil add.assoc)
  qed
qed


lemma fracText_0: "fracText 0 v = []"
  by (simp add: fracText_def fmtFrac_def)

lemma DurationString_canonical:
  assumes "d \<noteq> 0"
  shows "DurationString d = (if d < 0 then ''-'' else []) @ canonicalText (nat \<bar>d\<bar>)"
proof -
  define u where "u = nat \<bar>d\<bar>"
  from assms have u0: "u \<noteq> 0" by (simp add: u_def)
  consider (ns) "u < 1000" | (us) "\<not> u < 1000" "u < 1000000"
    | (ms) "\<not> u < 1000000" "u < 1000000000" | (s) "\<not> u < 1000000000"
    by linarith
  then show ?thesis
  proof cases
    case ns
    with u0 show ?thesis
      unfolding DurationString_def u_def [symmetric] Let_def canonicalText_def
      by (simp add: fmtFrac_fracText fmtInt_decimal fracText_0
          Second_def Millisecond_def Microsecond_def)
  next
    case us
    with u0 show ?thesis
      unfolding DurationString_def u_def [symmetric] Let_def canonicalText_def
      by (simp add: fmtFrac_fracText fmtInt_decimal Second_def Millisecond_def Microsecond_def)
  next
    case ms
    with u0 show ?thesis
      unfolding DurationString_def u_def [symmetric] Let_def canonicalText_def
      by (simp add: fmtFrac_fracText fmtInt_decimal Second_def Millisecond_def Microsecond_def)
  next
    case s
    with u0 show ?thesis
      unfolding DurationString_def u_def [symmetric] Let_def canonicalText_def
      by (simp add: fmtFrac_fracText fmtInt_decimal Second_def Millisecond_def Microsecond_def)
  qed
qed

lemma unitMap_powers:
  "unitMap ''ns'' = Some (10 ^ 0)" "unitMap [CHR 0xC2, CHR 0xB5, CHR ''s''] = Some (10 ^ 3)"
  "unitMap ''ms'' = Some (10 ^ 6)" "unitMap ''s'' = Some (10 ^ 9)"
  by (simp_all add: unitMap_def Second_def Millisecond_def Microsecond_def)

lemma unitMap_values:
  "unitMap ''m'' = Some 60000000000" "unitMap ''h'' = Some 3600000000000"
  by (simp_all add: unitMap_def Hour_def Minute_def Second_def Millisecond_def Microsecond_def)

lemma unitChars_units:
  "unitChars ''ns''" "unitChars [CHR 0xC2, CHR 0xB5, CHR ''s'']" "unitChars ''ms''"
  "unitChars ''s''" "unitChars ''m''" "unitChars ''h''"
  by (simp_all add: unitChars_def isDigit_iff)

lemma hd_decimal: "isDigit (hd (decimal n @ rest))"
  using decimal_nonempty [of n] decimal_digits [of n] by (cases "decimal n") simp_all

text \<open>
  A duration that is a whole number of its display unit has no fraction in its range.
\<close>

lemma wholeDuration_mod:
  assumes "wholeDuration (int u)" and "0 < u"
  shows "\<not> u < 1000 \<Longrightarrow> u < 1000000 \<Longrightarrow> u mod 10 ^ 3 = 0"
    and "\<not> u < 1000000 \<Longrightarrow> u < 1000000000 \<Longrightarrow> u mod 10 ^ 6 = 0"
    and "\<not> u < 1000000000 \<Longrightarrow> u mod 10 ^ 9 = 0"
proof -
  from assms(1) have w: "u < 1000 \<or> (u < 1000000 \<and> u mod 1000 = 0)
      \<or> (u < 1000000000 \<and> u mod 1000000 = 0) \<or> u mod 1000000000 = 0"
    unfolding wholeDuration_def Let_def
    by (simp add: Second_def Millisecond_def Microsecond_def)
  have small: "u mod k = 0 \<Longrightarrow> u < k \<Longrightarrow> False" for k
    using assms(2) by simp
  show "\<not> u < 1000 \<Longrightarrow> u < 1000000 \<Longrightarrow> u mod 10 ^ 3 = 0"
    using w small [of 1000000] small [of 1000000000] by auto
  show "\<not> u < 1000000 \<Longrightarrow> u < 1000000000 \<Longrightarrow> u mod 10 ^ 6 = 0"
    using w small [of 1000000000] by auto
  show "\<not> u < 1000000000 \<Longrightarrow> u mod 10 ^ 9 = 0"
    using w by auto
qed


text \<open>Parsing the canonical text of a duration gives the duration back.\<close>

lemma parseLoop_canonicalText:
  assumes "0 < u" and "u \<le> 2 ^ 63"
    and "wholeDuration (int u) \<or> exactDecimalFraction fraction"
  shows "parseLoop fraction 0 (canonicalText u) = Inr u"
proof -
  note wm = wholeDuration_mod [OF _ assms(1)]
  consider (ns) "u < 1000" | (us) "\<not> u < 1000" "u < 1000000"
    | (ms) "\<not> u < 1000000" "u < 1000000000" | (s) "\<not> u < 1000000000"
    by linarith
  then show ?thesis
  proof cases
    case ns
    have "parseLoop fraction 0 (decimal u @ fracText 0 u @ ''ns'') = Inr (0 + u * 10 ^ 0 + u mod 10 ^ 0)"
      using assms(2) by (intro parseLoop_last unitMap_powers unitChars_units) simp_all
    with ns show ?thesis by (simp add: canonicalText_def Microsecond_def fracText_0)
  next
    case us
    from us assms(3) wm(1) have c: "u mod 10 ^ 3 = 0 \<or> exactDecimalFraction fraction" by blast
    have "parseLoop fraction 0 (decimal (u div 1000) @ fracText 3 u @ [CHR 0xC2, CHR 0xB5, CHR ''s''])
        = Inr (0 + u div 1000 * 10 ^ 3 + u mod 10 ^ 3)"
      using assms(2) us c by (intro parseLoop_last unitMap_powers unitChars_units) simp_all
    with us show ?thesis by (simp add: canonicalText_def Millisecond_def Microsecond_def)
  next
    case ms
    from ms assms(3) wm(2) have c: "u mod 10 ^ 6 = 0 \<or> exactDecimalFraction fraction" by blast
    have "parseLoop fraction 0 (decimal (u div 1000000) @ fracText 6 u @ ''ms'')
        = Inr (0 + u div 1000000 * 10 ^ 6 + u mod 10 ^ 6)"
      using assms(2) ms c by (intro parseLoop_last unitMap_powers unitChars_units) simp_all
    with ms show ?thesis
      by (simp add: canonicalText_def Second_def Millisecond_def Microsecond_def)
  next
    case s
    from s assms(3) wm(3) have c: "u mod 10 ^ 9 = 0 \<or> exactDecimalFraction fraction" by blast
    define n where "n = u div 1000000000"
    define r where "r = u mod 10 ^ 9"
    define ss mm hh where "ss = n mod 60" and "mm = n div 60 mod 60" and "hh = n div 60 div 60"
    have "n = n div 60 * 60 + ss" unfolding ss_def by simp
    moreover have "n div 60 = hh * 60 + mm" unfolding hh_def mm_def by simp
    ultimately have split: "n = hh * 3600 + mm * 60 + ss" by simp
    have "u = n * 1000000000 + r" unfolding n_def r_def by simp
    then have total: "u = hh * 3600000000000 + mm * 60000000000 + ss * 10 ^ 9 + r"
      by (subst (asm) split) simp
    have b: "hh * 3600000000000 + mm * 60000000000 + ss * 10 ^ 9 + r \<le> 2 ^ 63"
      using total assms(2) by simp
    have txt0: "canonicalText u = (if hh > 0 then decimal hh @ ''h'' else [])
        @ (if n div 60 > 0 then decimal mm @ ''m'' else []) @ decimal ss @ fracText 9 u @ ''s''"
      using s by (simp add: canonicalText_def Second_def Millisecond_def Microsecond_def Let_def
          n_def ss_def mm_def hh_def)
    have sec: "parseLoop fraction d (decimal ss @ fracText 9 u @ ''s'') = Inr (d + ss * 10 ^ 9 + r)"
      if "d + ss * 10 ^ 9 + r \<le> 2 ^ 63" for d
    proof -
      have "ss < 60" by (simp add: ss_def)
      then have "ss \<le> 2 ^ 63 div 10 ^ 9" by simp
      from parseLoop_last [OF unitMap_powers(4) unitChars_units(4) _ this _ c, of d] that
      show ?thesis by (simp add: r_def)
    qed
    have minute: "parseLoop fraction d (decimal mm @ ''m'' @ decimal ss @ fracText 9 u @ ''s'')
        = Inr (d + mm * 60000000000 + ss * 10 ^ 9 + r)"
      if "d + mm * 60000000000 + ss * 10 ^ 9 + r \<le> 2 ^ 63" for d
    proof -
      have "mm < 60" by (simp add: mm_def)
      then have 1: "mm \<le> 2 ^ 63 div 60000000000" by simp
      have 2: "d + mm * 60000000000 \<le> 2 ^ 63" using that by simp
      have 3: "decimal ss @ fracText 9 u @ ''s'' = []
          \<or> hd (decimal ss @ fracText 9 u @ ''s'') = CHR ''.''
          \<or> isDigit (hd (decimal ss @ fracText 9 u @ ''s''))"
        using hd_decimal [of ss "fracText 9 u @ ''s''"] by blast
      from parseLoop_whole [OF unitMap_values(1) unitChars_units(5) 3 1 2, of fraction]
        sec [OF that]
      show ?thesis by simp
    qed
    have "parseLoop fraction 0 (canonicalText u)
        = Inr (hh * 3600000000000 + mm * 60000000000 + ss * 10 ^ 9 + r)"
    proof (cases "n div 60 > 0")
      case False
      then have z: "hh = 0" "mm = 0" by (simp_all add: hh_def mm_def)
      with False have "canonicalText u = decimal ss @ fracText 9 u @ ''s''" by (simp add: txt0)
      moreover have "0 + ss * 10 ^ 9 + r \<le> (2::nat) ^ 63" using b by simp
      ultimately show ?thesis using sec [of 0] z by simp
    next
      case m1: True
      show ?thesis
      proof (cases "hh > 0")
        case False
        with m1 have "canonicalText u = decimal mm @ ''m'' @ decimal ss @ fracText 9 u @ ''s''"
          by (simp add: txt0)
        moreover have "0 + mm * 60000000000 + ss * 10 ^ 9 + r \<le> (2::nat) ^ 63"
          using b by simp
        ultimately show ?thesis using minute [of 0] False by simp
      next
        case True
        with m1 have t: "canonicalText u
            = decimal hh @ ''h'' @ decimal mm @ ''m'' @ decimal ss @ fracText 9 u @ ''s''"
          by (simp add: txt0)
        from b have "hh * 3600000000000 \<le> 2 ^ 63" by simp
        then have 1: "hh \<le> 2 ^ 63 div 3600000000000"
          by (simp add: less_eq_div_iff_mult_less_eq)
        have 2: "0 + hh * 3600000000000 \<le> (2::nat) ^ 63" using b by simp
        have 3: "decimal mm @ ''m'' @ decimal ss @ fracText 9 u @ ''s'' = []
            \<or> hd (decimal mm @ ''m'' @ decimal ss @ fracText 9 u @ ''s'') = CHR ''.''
            \<or> isDigit (hd (decimal mm @ ''m'' @ decimal ss @ fracText 9 u @ ''s''))"
          using hd_decimal [of mm "''m'' @ decimal ss @ fracText 9 u @ ''s''"] by blast
        have 4: "0 + hh * 3600000000000 + mm * 60000000000 + ss * 10 ^ 9 + r \<le> 2 ^ 63"
          using b by simp
        from parseLoop_whole [OF unitMap_values(2) unitChars_units(6) 3 1 2, of fraction]
          minute [OF 4]
        show ?thesis unfolding t by simp
      qed
    qed
    then show ?thesis unfolding total [symmetric] .
  qed
qed

lemma canonicalText_shape: "\<exists>c t. canonicalText u = c # t \<and> isDigit c \<and> t \<noteq> []"
proof -
  have shape: "\<exists>c t. decimal n @ rest = c # t \<and> isDigit c \<and> t \<noteq> []" if "rest \<noteq> []"
    for n rest
    using that decimal_nonempty [of n] decimal_digits [of n] by (cases "decimal n") simp_all
  show ?thesis
    unfolding canonicalText_def Let_def
    by (auto intro!: shape)
qed

lemma ParseDuration_unsigned:
  assumes "isDigit c" and "t \<noteq> []" and "parseLoop fraction 0 (c # t) = Inr u"
  shows "u < 2 ^ 63 \<Longrightarrow> ParseDuration fraction (c # t) = Inr (int u)"
    and "ParseDuration fraction (CHR ''-'' # c # t) = Inr (- int u)"
proof -
  from assms(1) have c: "c \<noteq> CHR ''-''" "c \<noteq> CHR ''+''" by (auto simp: isDigit_iff)
  show "ParseDuration fraction (c # t) = Inr (int u)" if "u < 2 ^ 63"
  proof -
    have le: "\<not> u > 2 ^ 63 - 1" using that by simp
    show ?thesis unfolding ParseDuration_def using c assms(2) le by (simp add: assms(3))
  qed
  show "ParseDuration fraction (CHR ''-'' # c # t) = Inr (- int u)"
    unfolding ParseDuration_def using assms(2) by (simp add: assms(3))
qed

text \<open>Parsing the text of a duration gives the duration back.\<close>

lemma ParseDuration_DurationString:
  assumes "- (2 ^ 63) \<le> d" and "d < 2 ^ 63"
    and "wholeDuration d \<or> exactDecimalFraction fraction"
  shows "ParseDuration fraction (DurationString d) = Inr d"
proof (cases "d = 0")
  case True
  have "parseLoop fraction 0 (decimal 0 @ ''s'' @ []) = parseLoop fraction (0 + 0 * 10 ^ 9) []"
    by (intro parseLoop_whole unitMap_powers unitChars_units) simp_all
  then have p: "parseLoop fraction 0 ''0s'' = Inr 0"
    by (simp add: parseLoop_Nil decimal_def fmtInt_def)
  have "isDigit CHR ''0''" by (simp add: isDigit_iff)
  from ParseDuration_unsigned(1) [OF this _ p] have "ParseDuration fraction ''0s'' = Inr 0"
    by simp
  moreover have "DurationString 0 = ''0s''" by (simp add: DurationString_def)
  ultimately show ?thesis using True by simp
next
  case False
  define u where "u = nat \<bar>d\<bar>"
  from False assms(1,2) have u: "0 < u" "u \<le> 2 ^ 63" by (simp_all add: u_def)
  from assms(3) have w: "wholeDuration (int u) \<or> exactDecimalFraction fraction"
    by (simp add: wholeDuration_def u_def)
  obtain c t where s: "canonicalText u = c # t" and c: "isDigit c" and t: "t \<noteq> []"
    using canonicalText_shape [of u] by blast
  have p: "parseLoop fraction 0 (c # t) = Inr u"
    using parseLoop_canonicalText [OF u w] by (simp add: s)
  note r = ParseDuration_unsigned [OF c t p]
  have f: "DurationString d = (if d < 0 then ''-'' else []) @ c # t"
    using DurationString_canonical [OF False] by (simp add: u_def [symmetric] s)
  show ?thesis
  proof (cases "d < 0")
    case True
    then have "d = - int u" by (simp add: u_def)
    with True r(2) show ?thesis unfolding f by simp
  next
    case nonneg: False
    then have "d = int u" by (simp add: u_def)
    moreover from this assms(2) have "u < 2 ^ 63" by simp
    ultimately show ?thesis using nonneg r(1) unfolding f by simp
  qed
qed

lemma exactDecimalFraction_exactFraction: "exactDecimalFraction exactFraction"
  unfolding exactDecimalFraction_def exactFraction_def
proof (intro allI impI)
  fix f k p :: nat
  assume "k \<le> p \<and> p \<le> 9 \<and> f < 10 ^ k"
  then have "(10::nat) ^ p = 10 ^ (p - k) * 10 ^ k" by (simp add: power_add [symmetric])
  then show "f * 10 ^ p div 10 ^ k = f * 10 ^ (p - k)" by simp
qed

text \<open>
  C9, as the code has it. Formatting after parsing returns the original text when that
  text is canonical, that is when it is the text \<open>Duration.String\<close> writes: for every
  duration in the range of \<open>time.Duration\<close>, parsing its text gives the duration back,
  so unmarshalling what \<open>MarshalJSON\<close> writes and marshalling again gives the same bytes.
  This holds without any floating-point computation for a duration that is a whole number
  of its display unit, and for every duration when the floating-point value of a decimal
  fraction is exact. Other texts the parser accepts are rewritten to the canonical one.
\<close>

theorem canonical_duration_round_trip:
  assumes "- (2 ^ 63) \<le> d" and "d < 2 ^ 63"
    and "wholeDuration d \<or> exactDecimalFraction fraction"
    and "UnmarshalString json (MarshalString json (DurationString d)) = Some (DurationString d)"
  shows "ParseDuration fraction (DurationString d) = Inr d
       \<and> UnmarshalJSON json fraction (MarshalJSON json d) = Inr d
       \<and> (\<exists>p. UnmarshalJSON json fraction (MarshalJSON json d) = Inr p
              \<and> MarshalJSON json p = MarshalJSON json d)"
proof -
  have p: "ParseDuration fraction (DurationString d) = Inr d"
    using assms(1-3) by (rule ParseDuration_DurationString)
  then have "UnmarshalJSON json fraction (MarshalJSON json d) = Inr d"
    by (simp add: UnmarshalJSON_def MarshalJSON_def assms(4))
  with p show ?thesis by simp
qed

theorem canonical_duration_round_trip_witness:
  "- (2 ^ 63) \<le> (100000000::int) \<and> (100000000::int) < 2 ^ 63 \<and> wholeDuration 100000000
   \<and> DurationString 100000000 = ''100ms''
   \<and> UnmarshalString plainJSON (MarshalString plainJSON ''100ms'') = Some ''100ms''
   \<and> ParseDuration exactFraction ''100ms'' = Inr 100000000
   \<and> UnmarshalJSON plainJSON exactFraction (CHR 0x22 # ''100ms'' @ [CHR 0x22]) = Inr 100000000
   \<and> MarshalJSON plainJSON 100000000 = CHR 0x22 # ''100ms'' @ [CHR 0x22]
   \<and> - (2 ^ 63) \<le> (1500000000::int) \<and> (1500000000::int) < 2 ^ 63
   \<and> exactDecimalFraction exactFraction
   \<and> DurationString 1500000000 = ''1.5s''
   \<and> UnmarshalString plainJSON (MarshalString plainJSON ''1.5s'') = Some ''1.5s''
   \<and> ParseDuration exactFraction ''1.5s'' = Inr 1500000000"
proof -
  have r: "- (2 ^ 63) \<le> (100000000::int)" "(100000000::int) < 2 ^ 63" by simp_all
  have w: "wholeDuration 100000000" by code_simp
  then have w': "wholeDuration 100000000 \<or> exactDecimalFraction exactFraction" by (rule disjI1)
  have f: "DurationString 100000000 = ''100ms''" by code_simp
  have j: "UnmarshalString plainJSON (MarshalString plainJSON ''100ms'') = Some ''100ms''"
    by code_simp
  have m: "MarshalJSON plainJSON 100000000 = CHR 0x22 # ''100ms'' @ [CHR 0x22]"
    by code_simp
  from canonical_duration_round_trip [OF r w', of plainJSON] j
  have 1: "ParseDuration exactFraction ''100ms'' = Inr 100000000
      \<and> UnmarshalJSON plainJSON exactFraction (CHR 0x22 # ''100ms'' @ [CHR 0x22]) = Inr 100000000"
    unfolding m f by blast
  have r2: "- (2 ^ 63) \<le> (1500000000::int)" "(1500000000::int) < 2 ^ 63" by simp_all
  have e: "exactDecimalFraction exactFraction" by (rule exactDecimalFraction_exactFraction)
  then have e': "wholeDuration 1500000000 \<or> exactDecimalFraction exactFraction" by (rule disjI2)
  have f2: "DurationString 1500000000 = ''1.5s''" by code_simp
  have j2: "UnmarshalString plainJSON (MarshalString plainJSON ''1.5s'') = Some ''1.5s''"
    by code_simp
  from canonical_duration_round_trip [OF r2 e', of plainJSON] j2
  have 2: "ParseDuration exactFraction ''1.5s'' = Inr 1500000000"
    unfolding f2 by blast
  from r w f j m 1 r2 e f2 j2 2 show ?thesis by blast
qed

text \<open>
  The claim as stated fails at its own example: \<open>10m\<close> is accepted by the parser, and
  the duration it parses to is formatted as \<open>10m0s\<close>.
\<close>

theorem duration_round_trip_counterexample:
  "UnmarshalJSON plainJSON exactFraction (CHR 0x22 # ''10m'' @ [CHR 0x22]) = Inr 600000000000
   \<and> MarshalJSON plainJSON 600000000000 = CHR 0x22 # ''10m0s'' @ [CHR 0x22]
   \<and> ParseDuration exactFraction ''10m'' = Inr 600000000000
   \<and> DurationString 600000000000 = ''10m0s''
   \<and> ''10m0s'' \<noteq> ''10m''"
proof -
  have "UnmarshalJSON plainJSON exactFraction (CHR 0x22 # ''10m'' @ [CHR 0x22])
      = Inr 600000000000"
    by code_simp
  moreover have "MarshalJSON plainJSON 600000000000 = CHR 0x22 # ''10m0s'' @ [CHR 0x22]"
    by code_simp
  moreover have "ParseDuration exactFraction ''10m'' = Inr 600000000000" by code_simp
  moreover have "DurationString 600000000000 = ''10m0s''" by code_simp
  moreover have "''10m0s'' \<noteq> ''10m''" by simp
  ultimately show ?thesis by blast
qed

end
